theory Spec2Isabelle
  imports Complex_Main
begin

section \<open>Scroll-synchronised image sequences on a canvas (scrubImageSequence.js)\<close>

text \<open>
  The script preloads numbered frame images for every element marked \<open>[scrub-wrapper]\<close>,
  draws one frame at a time into the element's canvas, and lets an animation engine drive
  the frame index from the scroll position or from an autoplay timeline.

  The embedding follows the script function by function. Mutable globals, the closures of
  \<open>initCanvas\<close> and the document are fields of one page record that every function takes
  and returns; the callbacks the browser runs later (image load and error, animation
  updates, window resize, timers) are events of a step function. An exception thrown by
  the script is a value: a function that can throw returns the state it reached together
  with \<open>Some error\<close>.
\<close>

subsection \<open>Numbers\<close>

text \<open>
  Counts, frame indices and pixel sizes are integers and are modelled as \<open>nat\<close> or
  \<open>int\<close>. The arithmetic of \<open>render\<close> divides, and a division by a zero width gives
  \<open>Infinity\<close> or \<open>NaN\<close> in the script, never an exception, so the numbers that
  \<open>render\<close> computes are values of \<open>jsnum\<close>: a finite value (kept exact, as a
  rational; the rounding of doubles is not modelled), the two infinities, or NaN. No
  operand of \<open>render\<close> is negative zero, and the sign of zero is not modelled.
\<close>

datatype jsnum = Fin rat | PInf | NInf | NaN

fun js_div :: "jsnum \<Rightarrow> jsnum \<Rightarrow> jsnum" where
  "js_div NaN _ = NaN"
| "js_div _ NaN = NaN"
| "js_div (Fin a) (Fin b) =
     (if b \<noteq> 0 then Fin (a / b) else if 0 < a then PInf else if a < 0 then NInf else NaN)"
| "js_div (Fin a) _ = Fin 0"
| "js_div PInf (Fin b) = (if 0 \<le> b then PInf else NInf)"
| "js_div NInf (Fin b) = (if 0 \<le> b then NInf else PInf)"
| "js_div _ _ = NaN"

fun js_mul :: "jsnum \<Rightarrow> jsnum \<Rightarrow> jsnum" where
  "js_mul NaN _ = NaN"
| "js_mul _ NaN = NaN"
| "js_mul (Fin a) (Fin b) = Fin (a * b)"
| "js_mul (Fin a) PInf = (if a = 0 then NaN else if 0 < a then PInf else NInf)"
| "js_mul (Fin a) NInf = (if a = 0 then NaN else if 0 < a then NInf else PInf)"
| "js_mul PInf (Fin b) = (if b = 0 then NaN else if 0 < b then PInf else NInf)"
| "js_mul NInf (Fin b) = (if b = 0 then NaN else if 0 < b then NInf else PInf)"
| "js_mul PInf PInf = PInf"
| "js_mul NInf NInf = PInf"
| "js_mul _ _ = NInf"

fun js_sub :: "jsnum \<Rightarrow> jsnum \<Rightarrow> jsnum" where
  "js_sub NaN _ = NaN"
| "js_sub _ NaN = NaN"
| "js_sub (Fin a) (Fin b) = Fin (a - b)"
| "js_sub (Fin a) PInf = NInf"
| "js_sub (Fin a) NInf = PInf"
| "js_sub PInf PInf = NaN"
| "js_sub NInf NInf = NaN"
| "js_sub PInf _ = PInf"
| "js_sub NInf _ = NInf"

text \<open>\<open>Math.max\<close> of two arguments: NaN if either is NaN.\<close>

fun js_max :: "jsnum \<Rightarrow> jsnum \<Rightarrow> jsnum" where
  "js_max NaN _ = NaN"
| "js_max _ NaN = NaN"
| "js_max PInf _ = PInf"
| "js_max _ PInf = PInf"
| "js_max NInf y = y"
| "js_max x NInf = x"
| "js_max (Fin a) (Fin b) = Fin (max a b)"

definition num :: "nat \<Rightarrow> jsnum" where
  "num n = Fin (of_nat n)"

subsection \<open>Frame URLs\<close>

text \<open>
  \<open>toString\<close> of a non-negative integer is its decimal numeral; \<open>padStart\<close> repeats
  the pad string on the left, cut to the missing length, and leaves a string that is
  already long enough (or an empty pad string) alone.
\<close>

fun toString :: "nat \<Rightarrow> string" where
  "toString n =
     (if n < 10 then [''0123456789'' ! n]
      else toString (n div 10) @ [''0123456789'' ! (n mod 10)])"

declare toString.simps [simp del]

definition padStart :: "nat \<Rightarrow> string \<Rightarrow> string \<Rightarrow> string" where
  "padStart targetLength padString s =
     (if targetLength \<le> length s \<or> padString = [] then s
      else take (targetLength - length s)
             (concat (replicate (targetLength - length s) padString)) @ s)"

text \<open>The closure \<open>currentFrame\<close> of \<open>initCanvas\<close>, with the variables it captures.\<close>

definition currentFrame :: "string \<Rightarrow> string \<Rightarrow> string \<Rightarrow> nat \<Rightarrow> string" where
  "currentFrame prefix device suffix index =
     prefix @ device @ ''/'' @ padStart 3 ''0'' (toString (index + 1)) @ suffix"

text \<open>
  The specification's \<open>zero-pad(n, k)\<close>, written from its words: the decimal numeral of
  \<open>n\<close>, with zeros in front until it has at least \<open>k\<close> digits.
\<close>

definition zero_pad :: "nat \<Rightarrow> nat \<Rightarrow> string" where
  "zero_pad n k = replicate (k - length (toString n)) (CHR ''0'') @ toString n"

subsection \<open>Images and the canvas\<close>

text \<open>
  An image element has the URL it was given and a load state. The script reads
  \<open>img.width\<close> and \<open>img.height\<close>: for an element outside the document these are the
  natural size of a loaded image, and 0 while the image is pending or broken.
\<close>

datatype imgstatus = Pending | Broken | Loaded nat nat

record image =
  src :: string
  status :: imgstatus

fun status_width :: "imgstatus \<Rightarrow> nat" where
  "status_width (Loaded w h) = w"
| "status_width _ = 0"

fun status_height :: "imgstatus \<Rightarrow> nat" where
  "status_height (Loaded w h) = h"
| "status_height _ = 0"

definition img_width :: "image \<Rightarrow> nat" where
  "img_width img = status_width (status img)"

definition img_height :: "image \<Rightarrow> nat" where
  "img_height img = status_height (status img)"

text \<open>
  The canvas with its 2D context. \<open>layers\<close> is what the bitmap shows, as a display
  list (empty: blank); \<open>calls\<close> is the trace of the context methods the script has
  invoked, in order.
\<close>

datatype layer = Painted image rat rat rat rat | Cleared rat rat rat rat

datatype ctxcall = ClearRectCall jsnum jsnum jsnum jsnum
  | DrawImageCall image jsnum jsnum jsnum jsnum

record canvas =
  width :: nat
  height :: nat
  layers :: "layer list"
  calls :: "ctxcall list"

datatype error = TypeError | InvalidStateError

text \<open>
  The two context methods are the browser's, not the script's; they are modelled from
  the HTML standard. \<open>clearRect\<close> returns at once when an argument is infinite or NaN,
  and otherwise erases the rectangle: a rectangle that covers the bitmap leaves it blank.
  \<open>drawImage(image, dx, dy, dw, dh)\<close> returns at once when an argument is infinite or
  NaN; then it throws InvalidStateError for a broken image, draws nothing for an image
  that is not decoded yet or has a natural width or height of zero, and paints otherwise.
\<close>

fun clearRect :: "jsnum \<Rightarrow> jsnum \<Rightarrow> jsnum \<Rightarrow> jsnum \<Rightarrow> canvas \<Rightarrow> canvas" where
  "clearRect (Fin x) (Fin y) (Fin w) (Fin h) c =
     (let c' = c\<lparr>calls := calls c @ [ClearRectCall (Fin x) (Fin y) (Fin w) (Fin h)]\<rparr>
      in if x \<le> 0 \<and> y \<le> 0 \<and> of_nat (width c) \<le> x + w \<and> of_nat (height c) \<le> y + h
         then c'\<lparr>layers := []\<rparr>
         else c'\<lparr>layers := layers c @ [Cleared x y w h]\<rparr>)"
| "clearRect x y w h c = c\<lparr>calls := calls c @ [ClearRectCall x y w h]\<rparr>"

fun drawImage ::
  "image \<Rightarrow> jsnum \<Rightarrow> jsnum \<Rightarrow> jsnum \<Rightarrow> jsnum \<Rightarrow> canvas \<Rightarrow> canvas \<times> error option" where
  "drawImage img (Fin x) (Fin y) (Fin w) (Fin h) c =
     (let c' = c\<lparr>calls := calls c @ [DrawImageCall img (Fin x) (Fin y) (Fin w) (Fin h)]\<rparr>
      in case status img of
           Broken \<Rightarrow> (c', Some InvalidStateError)
         | Pending \<Rightarrow> (c', None)
         | Loaded nw nh \<Rightarrow>
             if nw = 0 \<or> nh = 0 then (c', None)
             else (c'\<lparr>layers := layers c @ [Painted img x y w h]\<rparr>, None))"
| "drawImage img x y w h c = (c\<lparr>calls := calls c @ [DrawImageCall img x y w h]\<rparr>, None)"

subsection \<open>render\<close>

text \<open>
  \<open>images[sequence.frame]\<close> is \<open>undefined\<close> when the index is outside the array, and
  reading \<open>img.width\<close> of \<open>undefined\<close> throws a TypeError. The read comes after the
  call of \<open>clearRect\<close>, so the canvas is cleared before the exception.
\<close>

record sequence =
  frame :: int

definition image_at :: "image list \<Rightarrow> int \<Rightarrow> image option" where
  "image_at images i =
     (if 0 \<le> i \<and> i < int (length images) then Some (images ! nat i) else None)"

definition render :: "image list \<Rightarrow> sequence \<Rightarrow> canvas \<Rightarrow> canvas \<times> error option" where
  "render images sequence c =
     (let img = image_at images (frame sequence);
          c1 = clearRect (Fin 0) (Fin 0) (num (width c)) (num (height c)) c
      in case img of
           None \<Rightarrow> (c1, Some TypeError)
         | Some img \<Rightarrow>
             (let scaleFactor = js_max (js_div (num (width c)) (num (img_width img)))
                                       (js_div (num (height c)) (num (img_height img)));
                  newWidth = js_mul (num (img_width img)) scaleFactor;
                  newHeight = js_mul (num (img_height img)) scaleFactor;
                  x = js_sub (js_div (num (width c)) (Fin 2)) (js_div newWidth (Fin 2));
                  y = js_sub (js_div (num (height c)) (Fin 2)) (js_div newHeight (Fin 2))
              in drawImage img x y newWidth newHeight c1))"

subsection \<open>The document and the page\<close>

text \<open>
  A \<open>[frames-play]\<close> block with the values the script reads from its dataset:
  \<open>Number(dataset.start)\<close> and \<open>Number(dataset.end)\<close> (integer frame numbers),
  whether \<open>autoplaySequence\<close> is in the dataset, and the optional strings
  (\<open>None\<close>: absent or empty, which the script treats alike).
\<close>

record frames_play =
  data_start :: int
  data_end :: int
  data_autoplaySequence :: bool
  data_autoplayDelay :: "rat option"
  data_startPos :: "string option"
  data_endPos :: "string option"

text \<open>
  A \<open>[scrub-wrapper]\<close> element: its dataset, the canvas that
  \<open>querySelector("canvas")\<close> finds, the client box of the canvas's parent, and its
  playback blocks. \<open>data_framecount\<close> is \<open>Number(dataset.framecount)\<close>, with
  \<open>None\<close> for NaN (the attribute is absent or not a number).
\<close>

record scrub_wrapper =
  data_prefix :: "string option"
  data_suffix :: "string option"
  data_framecount :: "int option"
  canvasElement :: "canvas option"
  parentClientWidth :: nat
  parentClientHeight :: nat
  blocks :: "frames_play list"

text \<open>
  One call of \<open>initCanvas\<close> leaves a closure behind that the image callbacks share:
  the section (as its index in the document), the captured strings, \<open>frameCount\<close>,
  \<open>images\<close> and \<open>imagesLoaded\<close>. \<open>readyCalls\<close> is not a variable of the script:
  it counts the calls of \<open>initCanvasAnimations\<close> made from this closure.
\<close>

record loader =
  l_section :: nat
  l_prefix :: string
  l_suffix :: string
  l_device :: string
  frameCount :: int
  images :: "image list"
  imagesLoaded :: nat
  readyCalls :: nat

text \<open>
  What the script hands to the animation engine for one block: the object it animates
  (\<open>blockSequence\<close>), the value its \<open>frame\<close> field starts from and the value it
  goes to, and the options as written in the script. \<open>scrollTrigger\<close> holds the start
  and end positions of a scroll-linked timeline and is \<open>None\<close> for an autoplay tween.
\<close>

record animation =
  target_loader :: nat
  blockSequence :: sequence
  from_frame :: int
  to_frame :: int
  duration :: rat
  ease :: string
  snap :: string
  delay :: rat
  scrollTrigger :: "(string \<times> string) option"

record page =
  viewportWidth :: nat
  clientWidth :: nat
  scrollY :: rat
  elements :: "scrub_wrapper list"
  globalImagesRemaining :: int
  totalImagesCount :: int
  loaders :: "loader list"
  animations :: "animation list"
  resizeListeners :: "nat list"
  timeouts :: "nat list"
  lenisResizes :: nat
  uncaught :: "error list"

subsection \<open>The functions of the script\<close>

text \<open>
  \<open>updateGlobalImageCount\<close>. The percentage it computes is never used and has no
  effect; the timer is recorded by its delay, and its callback is \<open>lenis.resize\<close>.
\<close>

definition updateGlobalImageCount :: "page \<Rightarrow> page" where
  "updateGlobalImageCount p =
     (let p1 = p\<lparr>globalImagesRemaining := globalImagesRemaining p - 1\<rparr>
      in if globalImagesRemaining p1 = 0 then p1\<lparr>timeouts := timeouts p1 @ [500]\<rparr> else p1)"

text \<open>
  \<open>render\<close> as the callbacks call it: with the images of a closure and the canvas of
  its section, which is written back to the document. A closure exists only for a section
  with a canvas; for a section without one the function leaves the page as it is.
\<close>

definition render_page :: "nat \<Rightarrow> sequence \<Rightarrow> page \<Rightarrow> page \<times> error option" where
  "render_page lid sq p =
     (let l = loaders p ! lid; k = l_section l
      in case canvasElement (elements p ! k) of
           None \<Rightarrow> (p, None)
         | Some c \<Rightarrow>
             (let (c', e) = render (images l) sq c
              in (p\<lparr>elements := (elements p)[k := (elements p ! k)\<lparr>canvasElement := Some c'\<rparr>]\<rparr>,
                  e)))"

text \<open>
  The body of \<open>blocks.forEach\<close> in \<open>initCanvasAnimations\<close>. \<open>gsap.to\<close> animates
  from the current value of the target, which is 0; \<open>fromTo\<close> sets the target to its
  from-value when the timeline is built. The options \<open>pin\<close>, \<open>scrub\<close> and \<open>markers\<close>
  of the scroll trigger are the same for every block and are not recorded.
\<close>

definition bindBlock :: "nat \<Rightarrow> frames_play \<Rightarrow> page \<Rightarrow> page \<times> error option" where
  "bindBlock lid block p =
     (let start = data_start block;
          end' = data_end block;
          blockFrameCount = end' - start;
          duration' = of_int blockFrameCount / 30;
          blockSequence' = \<lparr>frame = 0\<rparr>
      in if data_autoplaySequence block then
           (let delay' = (case data_autoplayDelay block of Some d \<Rightarrow> d | None \<Rightarrow> 0)
            in if scrollY p \<le> 1 then
                 (p\<lparr>animations := animations p @
                      [\<lparr>target_loader = lid, blockSequence = blockSequence',
                        from_frame = frame blockSequence', to_frame = end' - 1,
                        duration = duration', ease = ''none'', snap = ''frame'',
                        delay = delay', scrollTrigger = None\<rparr>]\<rparr>, None)
               else render_page lid (blockSequence'\<lparr>frame := end' - 1\<rparr>) p)
         else
           (p\<lparr>animations := animations p @
                [\<lparr>target_loader = lid, blockSequence = blockSequence'\<lparr>frame := start - 1\<rparr>,
                  from_frame = start - 1, to_frame = end' - 1,
                  duration = 1, ease = ''none'', snap = ''frame'', delay = 0,
                  scrollTrigger =
                    Some (case data_startPos block of Some s \<Rightarrow> s | None \<Rightarrow> ''top top'',
                          case data_endPos block of Some s \<Rightarrow> s | None \<Rightarrow> ''bottom bottom'')\<rparr>]\<rparr>,
            None))"

text \<open>\<open>forEach\<close> stops at the first exception.\<close>

fun bindBlocks :: "nat \<Rightarrow> frames_play list \<Rightarrow> page \<Rightarrow> page \<times> error option" where
  "bindBlocks lid [] p = (p, None)"
| "bindBlocks lid (b # bs) p =
     (case bindBlock lid b p of
        (p', Some e) \<Rightarrow> (p', Some e)
      | (p', None) \<Rightarrow> bindBlocks lid bs p')"

definition initCanvasAnimations :: "nat \<Rightarrow> page \<Rightarrow> page \<times> error option" where
  "initCanvasAnimations lid p =
     (let l = loaders p ! lid;
          p0 = p\<lparr>loaders := (loaders p)[lid := l\<lparr>readyCalls := readyCalls l + 1\<rparr>]\<rparr>;
          defaultSequence = \<lparr>frame = 0\<rparr>
      in case bindBlocks lid (blocks (elements p0 ! l_section l)) p0 of
           (p1, Some e) \<Rightarrow> (p1, Some e)
         | (p1, None) \<Rightarrow>
             (case render_page lid defaultSequence p1 of
                (p2, Some e) \<Rightarrow> (p2, Some e)
              | (p2, None) \<Rightarrow> (p2\<lparr>resizeListeners := resizeListeners p2 @ [lid]\<rparr>, None)))"

text \<open>The listener that \<open>initCanvasAnimations\<close> adds for the window's resize event.
  Setting the width or height of a canvas resets its bitmap.\<close>

definition resizeListener :: "nat \<Rightarrow> page \<Rightarrow> page \<times> error option" where
  "resizeListener lid p =
     (let k = l_section (loaders p ! lid); sec = elements p ! k
      in case canvasElement sec of
           None \<Rightarrow> (p, None)
         | Some c \<Rightarrow>
             render_page lid \<lparr>frame = 0\<rparr>
               (p\<lparr>elements := (elements p)[k := sec\<lparr>canvasElement :=
                    Some (c\<lparr>width := parentClientWidth sec, height := parentClientHeight sec,
                            layers := []\<rparr>)\<rparr>]\<rparr>))"

text \<open>
  The handlers \<open>img.onload\<close> and \<open>img.onerror\<close> of image \<open>i\<close>. Both start with
  \<open>imagesLoaded++\<close> (\<open>countLoaded\<close>) and \<open>updateGlobalImageCount()\<close>, and both end
  with the test \<open>imagesLoaded === frameCount\<close> that calls \<open>initCanvasAnimations\<close>
  (\<open>whenAllLoaded\<close>); \<open>onload\<close> renders frame 0 in between when \<open>i\<close> is 0, and an
  exception there ends the handler.
\<close>

definition countLoaded :: "nat \<Rightarrow> page \<Rightarrow> page" where
  "countLoaded lid p =
     p\<lparr>loaders := (loaders p)[lid := (loaders p ! lid)
          \<lparr>imagesLoaded := imagesLoaded (loaders p ! lid) + 1\<rparr>]\<rparr>"

definition whenAllLoaded :: "nat \<Rightarrow> page \<Rightarrow> page \<times> error option" where
  "whenAllLoaded lid p =
     (if int (imagesLoaded (loaders p ! lid)) = frameCount (loaders p ! lid)
      then initCanvasAnimations lid p else (p, None))"

definition onload :: "nat \<Rightarrow> nat \<Rightarrow> page \<Rightarrow> page \<times> error option" where
  "onload lid i p =
     (let p1 = updateGlobalImageCount (countLoaded lid p)
      in case (if i = 0 then render_page lid \<lparr>frame = 0\<rparr> p1 else (p1, None)) of
           (p2, Some e) \<Rightarrow> (p2, Some e)
         | (p2, None) \<Rightarrow> whenAllLoaded lid p2)"

definition onerror :: "nat \<Rightarrow> nat \<Rightarrow> page \<Rightarrow> page \<times> error option" where
  "onerror lid i p = whenAllLoaded lid (updateGlobalImageCount (countLoaded lid p))"

text \<open>The loop of \<open>initCanvas\<close>: a new image per index, its \<open>src\<close> set (which starts
  the request), pushed onto \<open>images\<close>.\<close>

function load_loop :: "(nat \<Rightarrow> string) \<Rightarrow> int \<Rightarrow> nat \<Rightarrow> image list \<Rightarrow> image list" where
  "load_loop cf fc i imgs =
     (if int i < fc then load_loop cf fc (i + 1) (imgs @ [\<lparr>src = cf i, status = Pending\<rparr>])
      else imgs)"
  by pat_completeness auto
termination
  by (relation "measure (\<lambda>(cf, fc, i, imgs). nat (fc - int i))") auto

declare load_loop.simps [simp del]

definition initCanvas ::
  "nat \<Rightarrow> canvas \<Rightarrow> string \<Rightarrow> string \<Rightarrow> int \<Rightarrow> string \<Rightarrow> page \<Rightarrow> page" where
  "initCanvas k c prefix suffix frames device p =
     (let sec = elements p ! k;
          c' = c\<lparr>width := parentClientWidth sec, height := parentClientHeight sec,
                 layers := []\<rparr>
      in p\<lparr>elements := (elements p)[k := sec\<lparr>canvasElement := Some c'\<rparr>],
           loaders := loaders p @
             [\<lparr>l_section = k, l_prefix = prefix, l_suffix = suffix, l_device = device,
               frameCount = frames,
               images = load_loop (currentFrame prefix device suffix) frames 0 [],
               imagesLoaded = 0, readyCalls = 0\<rparr>]\<rparr>)"

text \<open>The body of \<open>sections.forEach\<close> in \<open>initSections\<close>. An empty string, the
  number 0 and NaN are falsy.\<close>

definition initSection :: "nat \<Rightarrow> page \<Rightarrow> page" where
  "initSection k p =
     (let sec = elements p ! k
      in case (canvasElement sec, data_prefix sec, data_suffix sec, data_framecount sec) of
           (Some c, Some prefix, Some suffix, Some frames) \<Rightarrow>
             if prefix = [] \<or> suffix = [] \<or> frames = 0 then p
             else
               (let device = (if 768 \<le> viewportWidth p then ''desktop'' else ''mobile'')
                in initCanvas k c prefix suffix frames device
                     (p\<lparr>totalImagesCount := totalImagesCount p + frames,
                        globalImagesRemaining := globalImagesRemaining p + frames\<rparr>))
         | _ \<Rightarrow> p)"

definition initSections :: "page \<Rightarrow> page" where
  "initSections p = foldl (\<lambda>q k. initSection k q) p [0..<length (elements p)]"

subsection \<open>The script's top level and the browser's events\<close>

text \<open>
  Loading the script captures the document's client width, sets both counters to 0 and
  registers \<open>initSections\<close> for the two media queries; the engine runs a callback at once
  when its query matches.
\<close>

definition script :: "scrub_wrapper list \<Rightarrow> nat \<Rightarrow> rat \<Rightarrow> page" where
  "script doc w sy =
     (let p0 = \<lparr>viewportWidth = w, clientWidth = w, scrollY = sy, elements = doc,
                globalImagesRemaining = 0, totalImagesCount = 0, loaders = [],
                animations = [], resizeListeners = [], timeouts = [], lenisResizes = 0,
                uncaught = []\<rparr>;
          p1 = (if 768 \<le> w then initSections p0 else p0)
      in if w \<le> 767 then initSections p1 else p1)"

text \<open>
  The engine's part of an animation: at progress \<open>t\<close> of the tween (between 0 and 1),
  with linear easing, the animated value is \<open>from + (to - from) * t\<close>, and the snap
  rounds it to the nearest integer.
\<close>

definition tween_frame :: "animation \<Rightarrow> rat \<Rightarrow> int" where
  "tween_frame a t =
     round (of_int (from_frame a) + (of_int (to_frame a) - of_int (from_frame a)) * max 0 (min 1 t))"

text \<open>An exception that leaves a callback is reported by the browser and the page goes on.\<close>

definition handled :: "page \<times> error option \<Rightarrow> page" where
  "handled r = (case r of (p, None) \<Rightarrow> p | (p, Some e) \<Rightarrow> p\<lparr>uncaught := uncaught p @ [e]\<rparr>)"

definition set_status :: "nat \<Rightarrow> nat \<Rightarrow> imgstatus \<Rightarrow> page \<Rightarrow> page" where
  "set_status lid i st p =
     p\<lparr>loaders := (loaders p)[lid := (loaders p ! lid)
          \<lparr>images := (images (loaders p ! lid))[i := (images (loaders p ! lid) ! i)\<lparr>status := st\<rparr>]\<rparr>]\<rparr>"

definition can_settle :: "nat \<Rightarrow> nat \<Rightarrow> page \<Rightarrow> bool" where
  "can_settle lid i p =
     (lid < length (loaders p) \<and> i < length (images (loaders p ! lid)) \<and>
      status (images (loaders p ! lid) ! i) = Pending)"

datatype event =
    ImageLoad nat nat nat nat
  | ImageError nat nat
  | AnimationUpdate nat rat
  | WindowScroll rat
  | ParentResize nat nat nat
  | WindowResize nat
  | TimeoutFires

text \<open>
  \<^item> \<open>ImageLoad lid i w h\<close>: image \<open>i\<close> of closure \<open>lid\<close> loads with natural size
    \<open>w\<close> by \<open>h\<close>; \<open>ImageError lid i\<close>: it fails. An image settles once, so the event
    is possible only while the image is pending.
  \<^item> \<open>AnimationUpdate n t\<close>: the engine moves animation \<open>n\<close> to progress \<open>t\<close>,
    writes the frame and calls \<open>onUpdate\<close>.
  \<^item> \<open>WindowResize w\<close>: the document becomes \<open>w\<close> pixels wide; the resize listeners
    run, then the callback of a media query that starts to match.
  \<^item> \<open>TimeoutFires\<close>: the oldest pending timer runs \<open>lenis.resize\<close>.
\<close>

fun step :: "event \<Rightarrow> page \<Rightarrow> page" where
  "step (ImageLoad lid i w h) p =
     (if can_settle lid i p then handled (onload lid i (set_status lid i (Loaded w h) p)) else p)"
| "step (ImageError lid i) p =
     (if can_settle lid i p then handled (onerror lid i (set_status lid i Broken p)) else p)"
| "step (AnimationUpdate n t) p =
     (if n < length (animations p) then
        (let a = animations p ! n;
             a' = a\<lparr>blockSequence := (blockSequence a)\<lparr>frame := tween_frame a t\<rparr>\<rparr>
         in handled (render_page (target_loader a) (blockSequence a')
                       (p\<lparr>animations := (animations p)[n := a']\<rparr>)))
      else p)"
| "step (WindowScroll y) p = p\<lparr>scrollY := y\<rparr>"
| "step (ParentResize k w h) p =
     (if k < length (elements p)
      then p\<lparr>elements := (elements p)[k := (elements p ! k)
              \<lparr>parentClientWidth := w, parentClientHeight := h\<rparr>]\<rparr>
      else p)"
| "step (WindowResize w) p =
     (let old = clientWidth p;
          p1 = foldl (\<lambda>q lid. handled (resizeListener lid q)) (p\<lparr>clientWidth := w\<rparr>)
                 (resizeListeners p);
          p2 = (if 768 \<le> w \<and> \<not> 768 \<le> old then initSections p1 else p1)
      in if w \<le> 767 \<and> \<not> old \<le> 767 then initSections p2 else p2)"
| "step TimeoutFires p =
     (case timeouts p of
        [] \<Rightarrow> p
      | t # ts \<Rightarrow> p\<lparr>timeouts := ts, lenisResizes := lenisResizes p + 1\<rparr>)"

definition run :: "event list \<Rightarrow> page \<Rightarrow> page" where
  "run evs p = foldl (\<lambda>q e. step e q) p evs"

subsection \<open>Notions used in the statements\<close>

text \<open>A frame can be drawn when its index is inside the array and its image has loaded
  with a positive width and height.\<close>

definition drawable :: "image list \<Rightarrow> sequence \<Rightarrow> bool" where
  "drawable imgs sq =
     (case image_at imgs (frame sq) of
        None \<Rightarrow> False
      | Some img \<Rightarrow> 0 < img_width img \<and> 0 < img_height img)"

text \<open>The device variant for a document width, and the images of a closure that are
  still pending or have settled (loaded or failed).\<close>

definition device_of :: "nat \<Rightarrow> string" where
  "device_of w = (if 768 \<le> w then ''desktop'' else ''mobile'')"

definition pending_imgs :: "image list \<Rightarrow> nat" where
  "pending_imgs imgs = length (filter (\<lambda>im. status im = Pending) imgs)"

definition settled :: "image list \<Rightarrow> nat" where
  "settled imgs = length (filter (\<lambda>im. status im \<noteq> Pending) imgs)"

text \<open>What one completion (load or error) of image \<open>i\<close> does to its closure: the image
  gets its new state, \<open>imagesLoaded\<close> goes up by one, and \<open>initCanvasAnimations\<close> is
  called when the count equals \<open>frameCount\<close>.\<close>

definition settle_loader :: "nat \<Rightarrow> imgstatus \<Rightarrow> loader \<Rightarrow> loader" where
  "settle_loader i st l =
     (let l1 = l\<lparr>images := (images l)[i := (images l ! i)\<lparr>status := st\<rparr>],
                  imagesLoaded := imagesLoaded l + 1\<rparr>
      in if int (imagesLoaded l1) = frameCount l1 then l1\<lparr>readyCalls := readyCalls l1 + 1\<rparr>
         else l1)"

text \<open>The states a closure of \<open>initCanvas\<close> can be in on a page whose script captured the
  width \<open>w\<close>: as \<open>initSections\<close> creates it, and after each completion of an image that
  was still pending.\<close>

inductive closure_state :: "nat \<Rightarrow> loader \<Rightarrow> bool" for w :: nat where
  created: "N \<noteq> 0 \<Longrightarrow>
     closure_state w
       \<lparr>l_section = k, l_prefix = P, l_suffix = S, l_device = device_of w, frameCount = N,
        images = map (\<lambda>j. \<lparr>src = currentFrame P (device_of w) S j, status = Pending\<rparr>) [0..<nat N],
        imagesLoaded = 0, readyCalls = 0\<rparr>"
| completed: "closure_state w l \<Longrightarrow> i < length (images l) \<Longrightarrow>
     status (images l ! i) = Pending \<Longrightarrow> st \<noteq> Pending \<Longrightarrow>
     closure_state w (settle_loader i st l)"

definition closures_ok :: "nat \<Rightarrow> page \<Rightarrow> bool" where
  "closures_ok w p = (viewportWidth p = w \<and> (\<forall>l \<in> set (loaders p). closure_state w l))"

text \<open>Over the whole page: the images still pending and all images requested, the
  documents whose frame counts are not negative, and the events that keep the document on
  the side of the 768 pixel boundary where a page loaded at width \<open>w\<close> started, so that
  no media query starts to match and \<open>initSections\<close> does not run again.\<close>

definition pending :: "page \<Rightarrow> nat" where
  "pending p = sum_list (map (\<lambda>l. pending_imgs (images l)) (loaders p))"

definition nimages :: "page \<Rightarrow> nat" where
  "nimages p = sum_list (map (\<lambda>l. length (images l)) (loaders p))"

definition counts_nonneg :: "scrub_wrapper list \<Rightarrow> bool" where
  "counts_nonneg doc =
     list_all (\<lambda>s. case data_framecount s of None \<Rightarrow> True | Some n \<Rightarrow> 0 \<le> n) doc"

fun same_side :: "nat \<Rightarrow> event \<Rightarrow> bool" where
  "same_side w (WindowResize w') = ((768 \<le> w') = (768 \<le> w))"
| "same_side w _ = True"

definition progress_ok :: "nat \<Rightarrow> page \<Rightarrow> bool" where
  "progress_ok w p =
     ((768 \<le> clientWidth p) = (768 \<le> w) \<and>
      globalImagesRemaining p = int (pending p) \<and>
      length (timeouts p) + lenisResizes p = (if pending p = 0 \<and> 0 < nimages p then 1 else 0) \<and>
      list_all (\<lambda>t. t = 500) (timeouts p))"

text \<open>The counters while \<open>initSections\<close> runs for the first time: nothing has settled
  and no timer is set.\<close>

definition counters_fresh :: "page \<Rightarrow> bool" where
  "counters_fresh p =
     (globalImagesRemaining p = int (pending p) \<and> pending p = nimages p \<and>
      timeouts p = [] \<and> lenisResizes p = 0 \<and> counts_nonneg (elements p))"

text \<open>
  Frames of a block that stay inside the image array. A block fits a frame count \<open>N\<close>
  when its end attribute lies between 1 and \<open>N\<close> and, unless it is an autoplay block,
  its start attribute does too. An animation is an animation of block \<open>b\<close> when it
  carries what \<open>bindBlock\<close> takes from \<open>b\<close>: it goes to \<open>end - 1\<close>, it starts from 0
  for an autoplay block and from \<open>start - 1\<close> otherwise, and it has a scroll trigger
  exactly when \<open>b\<close> is not an autoplay block. The frame of an animation is between its
  ends when it is not below the smaller and not above the larger of the values the
  animation starts from and goes to.

  \<open>frames_ok\<close> is the invariant of a running page of a document: the dataset and the
  blocks of every section are those of the document, every closure belongs to a section
  with the closure's frame count, and every animation renders from a closure of the page,
  is an animation of a block of that closure's section, and has its frame between its
  ends. It reads only the parts of the sections and closures that never change
  (\<open>static\<close>, \<open>closure_key\<close>) and the animations.
\<close>

definition block_ok :: "int \<Rightarrow> frames_play \<Rightarrow> bool" where
  "block_ok N b =
     (1 \<le> data_end b \<and> data_end b \<le> N \<and>
      (data_autoplaySequence b \<or> (1 \<le> data_start b \<and> data_start b \<le> N)))"

definition animates :: "frames_play \<Rightarrow> animation \<Rightarrow> bool" where
  "animates b a =
     (to_frame a = data_end b - 1 \<and>
      from_frame a = (if data_autoplaySequence b then 0 else data_start b - 1) \<and>
      (scrollTrigger a = None) = data_autoplaySequence b)"

definition between_ends :: "animation \<Rightarrow> bool" where
  "between_ends a =
     (min (from_frame a) (to_frame a) \<le> frame (blockSequence a) \<and>
      frame (blockSequence a) \<le> max (from_frame a) (to_frame a))"

definition static :: "scrub_wrapper \<Rightarrow> int option \<times> frames_play list" where
  "static s = (data_framecount s, blocks s)"

definition closure_key :: "loader \<Rightarrow> nat \<times> int" where
  "closure_key l = (l_section l, frameCount l)"

definition frames_inv ::
  "(int option \<times> frames_play list) list \<Rightarrow> (nat \<times> int) list \<Rightarrow> animation list \<Rightarrow> bool" where
  "frames_inv S K A =
     (list_all (\<lambda>k. fst k < length S \<and> fst (S ! fst k) = Some (snd k)) K \<and>
      list_all (\<lambda>a. target_loader a < length K \<and>
                     list_ex (\<lambda>b. animates b a) (snd (S ! fst (K ! target_loader a))) \<and>
                     between_ends a) A)"

definition frames_ok :: "scrub_wrapper list \<Rightarrow> page \<Rightarrow> bool" where
  "frames_ok doc p =
     (map static (elements p) = map static doc \<and>
      frames_inv (map static doc) (map closure_key (loaders p)) (animations p))"

text \<open>
  An animation list grows into another when every animation of the first is still at its
  place in the second and differs there at most in its sequence object.
\<close>

definition grows :: "animation list \<Rightarrow> animation list \<Rightarrow> bool" where
  "grows A B =
     (length A \<le> length B \<and>
      (\<forall>n < length A. B ! n = (A ! n)\<lparr>blockSequence := blockSequence (B ! n)\<rparr>))"

text \<open>A document for the examples: a section with frames under \<open>/img/\<close>, a canvas and
  a parent box of 800 by 600.\<close>

definition demo_canvas :: canvas where
  "demo_canvas = \<lparr>width = 300, height = 150, layers = [], calls = []\<rparr>"

definition demo_section :: "int \<Rightarrow> frames_play list \<Rightarrow> scrub_wrapper" where
  "demo_section n bs =
     \<lparr>data_prefix = Some ''/img/'', data_suffix = Some ''.jpg'', data_framecount = Some n,
      canvasElement = Some demo_canvas, parentClientWidth = 800, parentClientHeight = 600,
      blocks = bs\<rparr>"

section \<open>Properties\<close>

subsection \<open>What render does\<close>

lemma drawImage_not_finite:
  "w = NaN \<or> h = NaN \<Longrightarrow>
   drawImage img x y w h c = (c\<lparr>calls := calls c @ [DrawImageCall img x y w h]\<rparr>, None)"
  by (cases x; cases y; cases w; cases h) auto

lemma scale_zero_width:
  "js_max (js_div (num W) (num 0)) (js_div (num H) (num ih)) \<in> {PInf, NaN}"
  by (cases "ih = 0"; cases "H = 0"; cases "W = 0") (auto simp: num_def)

lemma scale_zero_height:
  "js_max (js_div (num W) (num iw)) (js_div (num H) (num 0)) \<in> {PInf, NaN}"
  by (cases "iw = 0"; cases "H = 0"; cases "W = 0") (auto simp: num_def)

lemma zero_times_scale: "s \<in> {PInf, NaN} \<Longrightarrow> js_mul (num 0) s = NaN"
  by (auto simp: num_def)

lemma scale_positive:
  "0 < iw \<Longrightarrow> 0 < ih \<Longrightarrow>
   js_max (js_div (num W) (num iw)) (js_div (num H) (num ih)) =
   Fin (max (of_nat W / of_nat iw) (of_nat H / of_nat ih))"
  by (simp add: num_def)

lemma clearRect_whole:
  "clearRect (Fin 0) (Fin 0) (num (width c)) (num (height c)) c =
   c\<lparr>calls := calls c @ [ClearRectCall (Fin 0) (Fin 0) (num (width c)) (num (height c))],
     layers := []\<rparr>"
  by (simp add: num_def)

lemma render_outside:
  "image_at imgs (frame sq) = None \<Longrightarrow>
   render imgs sq c =
   (c\<lparr>calls := calls c @ [ClearRectCall (Fin 0) (Fin 0) (num (width c)) (num (height c))],
      layers := []\<rparr>, Some TypeError)"
  by (simp add: render_def clearRect_whole del: clearRect.simps)

lemma drawImage_calls:
  "calls (fst (drawImage img x y w h c)) = calls c @ [DrawImageCall img x y w h]"
  by (cases x; cases y; cases w; cases h) (auto simp: Let_def split: imgstatus.splits)

lemma drawImage_size:
  "width (fst (drawImage img x y w h c)) = width c \<and>
   height (fst (drawImage img x y w h c)) = height c"
  by (cases x; cases y; cases w; cases h) (auto simp: Let_def split: imgstatus.splits)

lemma render_calls:
  "calls (fst (render imgs sq c)) =
   calls c @ ClearRectCall (Fin 0) (Fin 0) (num (width c)) (num (height c)) #
     (case image_at imgs (frame sq) of None \<Rightarrow> [] | Some img \<Rightarrow> drop (Suc (length (calls c))) (calls (fst (render imgs sq c))))"
  by (simp add: render_def Let_def clearRect_whole drawImage_calls split: option.splits
           del: clearRect.simps drawImage.simps)

lemma render_size:
  "width (fst (render imgs sq c)) = width c \<and> height (fst (render imgs sq c)) = height c"
  by (simp add: render_def Let_def clearRect_whole drawImage_size split: option.splits
           del: clearRect.simps drawImage.simps)

lemma render_not_drawable:
  assumes "image_at imgs (frame sq) = Some img" and "img_width img = 0 \<or> img_height img = 0"
  shows "snd (render imgs sq c) = None \<and> layers (fst (render imgs sq c)) = []"
proof -
  let ?s = "js_max (js_div (num (width c)) (num (img_width img)))
                   (js_div (num (height c)) (num (img_height img)))"
  have "js_mul (num (img_width img)) ?s = NaN \<or> js_mul (num (img_height img)) ?s = NaN"
    using assms(2) scale_zero_width scale_zero_height zero_times_scale by metis
  then show ?thesis
    using assms(1)
    by (auto simp: render_def Let_def clearRect_whole drawImage_not_finite
             simp del: clearRect.simps drawImage.simps)
qed

lemma render_not_loaded:
  assumes "image_at imgs (frame sq) = Some img" and "status img = Pending \<or> status img = Broken"
  shows "render imgs sq c =
     (c\<lparr>calls := calls c @ [ClearRectCall (Fin 0) (Fin 0) (num (width c)) (num (height c)),
                             DrawImageCall img NaN NaN NaN NaN],
        layers := []\<rparr>, None)"
proof -
  have w: "img_width img = 0" and h: "img_height img = 0"
    using assms(2) by (auto simp: img_width_def img_height_def)
  have s: "js_max (js_div (num (width c)) (num 0)) (js_div (num (height c)) (num 0)) \<in> {PInf, NaN}"
    by (rule scale_zero_width)
  then have m: "js_mul (num 0) (js_max (js_div (num (width c)) (num 0)) (js_div (num (height c)) (num 0))) = NaN"
    by (rule zero_times_scale)
  have d: "js_div NaN (Fin 2) = NaN" by simp
  have x: "js_sub a NaN = NaN" for a by (cases a) simp_all
  show ?thesis
    using assms(1)
    by (simp add: render_def Let_def clearRect_whole w h m d x del: clearRect.simps)
qed

lemma render_drawable:
  assumes "image_at imgs (frame sq) = Some img" and "status img = Loaded w h"
    and "0 < w" and "0 < h"
  shows "render imgs sq c =
   (let W = of_nat (width c); H = of_nat (height c);
        s = max (W / of_nat w) (H / of_nat h);
        newWidth = of_nat w * s; newHeight = of_nat h * s;
        x = W / 2 - newWidth / 2; y = H / 2 - newHeight / 2
    in (c\<lparr>calls := calls c @ [ClearRectCall (Fin 0) (Fin 0) (Fin W) (Fin H),
                              DrawImageCall img (Fin x) (Fin y) (Fin newWidth) (Fin newHeight)],
          layers := [Painted img x y newWidth newHeight]\<rparr>, None))"
  using assms
  by (simp add: render_def Let_def clearRect_whole img_width_def img_height_def scale_positive
           del: clearRect.simps)
     (simp add: num_def)


lemma render_outcome:
  "snd (render imgs sq c) = (if image_at imgs (frame sq) = None then Some TypeError else None)"
proof (cases "image_at imgs (frame sq)")
  case None
  then show ?thesis by (simp add: render_outside)
next
  case (Some img)
  show ?thesis
  proof (cases "img_width img = 0 \<or> img_height img = 0")
    case True
    then show ?thesis using Some render_not_drawable by simp
  next
    case False
    then obtain w h where "status img = Loaded w h" "0 < w" "0 < h"
      by (cases "status img") (auto simp: img_width_def img_height_def)
    then show ?thesis using Some render_drawable[of imgs sq img w h c] by (simp add: Let_def)
  qed
qed

subsection \<open>Frame URLs\<close>

lemma padStart_zero: "padStart k ''0'' s = replicate (k - length s) (CHR ''0'') @ s"
proof -
  have "concat (replicate n ''0'') = replicate n (CHR ''0'')" for n
    by (induction n) auto
  then show ?thesis by (simp add: padStart_def)
qed

lemma currentFrame_zero_pad:
  "currentFrame P D S i = P @ D @ ''/'' @ zero_pad (i + 1) 3 @ S"
  by (simp add: currentFrame_def zero_pad_def padStart_zero)

lemma load_loop_map:
  "load_loop cf fc i imgs = imgs @ map (\<lambda>j. \<lparr>src = cf j, status = Pending\<rparr>) [i..<nat fc]"
proof (induction cf fc i imgs rule: load_loop.induct)
  case (1 cf fc i imgs)
  show ?case
  proof (cases "int i < fc")
    case True
    then have "[i..<nat fc] = i # [i + 1..<nat fc]"
      by (simp add: upt_conv_Cons)
    with True 1 show ?thesis
      by (simp add: load_loop.simps[of cf fc i imgs])
  next
    case False
    then show ?thesis by (simp add: load_loop.simps[of cf fc i imgs])
  qed
qed

lemma currentFrame_first: "currentFrame ''/img/'' ''desktop'' ''.jpg'' 0 = ''/img/desktop/001.jpg''"
  by code_simp

lemma currentFrame_hundredth:
  "currentFrame ''/img/'' ''desktop'' ''.jpg'' 99 = ''/img/desktop/100.jpg''"
  by code_simp

text \<open>
  Claim C1. \<open>initCanvas\<close> with prefix \<open>P\<close>, suffix \<open>S\<close>, device \<open>D\<close> and frame
  count \<open>N\<close> creates exactly the images for the indices \<open>0 \<le> i < N\<close>, in order, and
  image \<open>i\<close> is requested from \<open>P + D + "/" + zero-pad(i + 1, 3) + S\<close>. With
  \<open>"/img/"\<close>, \<open>"desktop"\<close> and \<open>".jpg"\<close>, index 0 gives \<open>"/img/desktop/001.jpg"\<close> and
  index 99 gives \<open>"/img/desktop/100.jpg"\<close>.
\<close>

theorem frame_urls:
  "images (last (loaders (initCanvas k c P S N D p))) =
     map (\<lambda>i. \<lparr>src = P @ D @ ''/'' @ zero_pad (i + 1) 3 @ S, status = Pending\<rparr>) [0..<nat N]
   \<and> currentFrame ''/img/'' ''desktop'' ''.jpg'' 0 = ''/img/desktop/001.jpg''
   \<and> currentFrame ''/img/'' ''desktop'' ''.jpg'' 99 = ''/img/desktop/100.jpg''"
proof (intro conjI)
  show "images (last (loaders (initCanvas k c P S N D p))) =
     map (\<lambda>i. \<lparr>src = P @ D @ ''/'' @ zero_pad (i + 1) 3 @ S, status = Pending\<rparr>) [0..<nat N]"
    by (simp add: initCanvas_def Let_def load_loop_map currentFrame_zero_pad)
  show "currentFrame ''/img/'' ''desktop'' ''.jpg'' 0 = ''/img/desktop/001.jpg''"
    by (rule currentFrame_first)
  show "currentFrame ''/img/'' ''desktop'' ''.jpg'' 99 = ''/img/desktop/100.jpg''"
    by (rule currentFrame_hundredth)
qed

theorem frame_urls_witness:
  "map src (images (last (loaders (initCanvas 0 \<lparr>width = 0, height = 0, layers = [], calls = []\<rparr>
      ''/img/'' ''.jpg'' 3 ''desktop''
      \<lparr>viewportWidth = 1024, clientWidth = 1024, scrollY = 0,
        elements = [\<lparr>data_prefix = Some ''/img/'', data_suffix = Some ''.jpg'',
           data_framecount = Some 3,
           canvasElement = Some \<lparr>width = 0, height = 0, layers = [], calls = []\<rparr>,
           parentClientWidth = 800, parentClientHeight = 600, blocks = []\<rparr>],
        globalImagesRemaining = 3, totalImagesCount = 3, loaders = [],
        animations = [], resizeListeners = [], timeouts = [], lenisResizes = 0,
        uncaught = []\<rparr>)))) =
   [''/img/desktop/001.jpg'', ''/img/desktop/002.jpg'', ''/img/desktop/003.jpg'']"
proof -
  have "map src (map (\<lambda>i. \<lparr>src = ''/img/'' @ ''desktop'' @ ''/'' @ zero_pad (i + 1) 3 @ ''.jpg'',
            status = Pending\<rparr>) [0..<nat 3]) =
        [''/img/desktop/001.jpg'', ''/img/desktop/002.jpg'', ''/img/desktop/003.jpg'']"
    by code_simp
  then show ?thesis
    by (simp only: frame_urls)
qed

subsection \<open>Claims about render\<close>

text \<open>
  Claim C7. For an image of positive width \<open>w\<close> and height \<open>h\<close> at the requested index and
  a canvas of width \<open>W\<close> and height \<open>H\<close>, \<open>render\<close> clears the canvas and then draws
  the image with scale factor \<open>s = max (W / w) (H / h)\<close>, drawn size \<open>(w * s, h * s)\<close> and
  top-left corner \<open>(W / 2 - w * s / 2, H / 2 - h * s / 2)\<close>; nothing is thrown. For
  example, a canvas of 800 by 600 and an image of 400 by 300 give size 800 by 600 at (0, 0),
  and the frame shown before is gone.
\<close>

theorem render_cover_fit:
  assumes "image_at imgs (frame sq) = Some img" and "status img = Loaded w h"
    and "0 < w" and "0 < h"
  shows "render imgs sq c =
   (let W = of_nat (width c); H = of_nat (height c);
        s = max (W / of_nat w) (H / of_nat h);
        newWidth = of_nat w * s; newHeight = of_nat h * s;
        x = W / 2 - newWidth / 2; y = H / 2 - newHeight / 2
    in (c\<lparr>calls := calls c @ [ClearRectCall (Fin 0) (Fin 0) (Fin W) (Fin H),
                              DrawImageCall img (Fin x) (Fin y) (Fin newWidth) (Fin newHeight)],
          layers := [Painted img x y newWidth newHeight]\<rparr>, None))"
  using assms by (rule render_drawable)

theorem render_cover_fit_witness:
  "render [\<lparr>src = ''/img/desktop/001.jpg'', status = Loaded 400 300\<rparr>] \<lparr>frame = 0\<rparr>
     \<lparr>width = 800, height = 600,
      layers = [Painted \<lparr>src = ''/img/desktop/002.jpg'', status = Loaded 400 300\<rparr> 0 0 800 600],
      calls = []\<rparr> =
   (\<lparr>width = 800, height = 600,
     layers = [Painted \<lparr>src = ''/img/desktop/001.jpg'', status = Loaded 400 300\<rparr> 0 0 800 600],
     calls = [ClearRectCall (Fin 0) (Fin 0) (Fin 800) (Fin 600),
              DrawImageCall \<lparr>src = ''/img/desktop/001.jpg'', status = Loaded 400 300\<rparr>
                (Fin 0) (Fin 0) (Fin 800) (Fin 600)]\<rparr>, None)"
  using render_cover_fit [of "[\<lparr>src = ''/img/desktop/001.jpg'', status = Loaded 400 300\<rparr>]"
      "\<lparr>frame = 0\<rparr>" "\<lparr>src = ''/img/desktop/001.jpg'', status = Loaded 400 300\<rparr>" 400 300
      "\<lparr>width = 800, height = 600,
      layers = [Painted \<lparr>src = ''/img/desktop/002.jpg'', status = Loaded 400 300\<rparr> 0 0 800 600],
      calls = []\<rparr>"]
  by (simp add: image_at_def Let_def)

text \<open>
  Claim C2 as stated fails: with one image in the array, rendering frame index 1 throws a
  TypeError (the canvas has been cleared by then).
\<close>

theorem render_throws_outside_array:
  "snd (render [\<lparr>src = ''/img/desktop/001.jpg'', status = Loaded 400 300\<rparr>] \<lparr>frame = 1\<rparr>
         \<lparr>width = 800, height = 600, layers = [], calls = []\<rparr>) = Some TypeError"
  by (simp add: render_def image_at_def)

text \<open>
  Claim C2, amended. \<open>render\<close> throws exactly when the frame index is outside the image
  array, and then a TypeError. For an index inside the array it does not throw, whatever
  the load state of the image. For an image that failed or has not loaded yet the script
  clears the canvas and calls \<open>drawImage\<close> with NaN for position and size; \<open>drawImage\<close>
  as the HTML standard defines it returns at once on such arguments, so nothing is drawn
  and the canvas is left blank.
\<close>

theorem render_throws_only_outside_array:
  "snd (render imgs sq c) = (if image_at imgs (frame sq) = None then Some TypeError else None)
   \<and> (\<forall>img. image_at imgs (frame sq) = Some img \<and> (status img = Pending \<or> status img = Broken)
         \<longrightarrow> fst (render imgs sq c) =
               c\<lparr>calls := calls c @
                    [ClearRectCall (Fin 0) (Fin 0) (num (width c)) (num (height c)),
                     DrawImageCall img NaN NaN NaN NaN],
                 layers := []\<rparr>)"
  using render_outcome [of imgs sq c] render_not_loaded [of imgs sq _ c] by simp

theorem render_throws_only_outside_array_witness:
  "render [\<lparr>src = ''/img/desktop/001.jpg'', status = Broken\<rparr>] \<lparr>frame = 0\<rparr>
         \<lparr>width = 800, height = 600, layers = [Cleared 0 0 1 1], calls = []\<rparr> =
   (\<lparr>width = 800, height = 600, layers = [],
     calls = [ClearRectCall (Fin 0) (Fin 0) (Fin 800) (Fin 600),
              DrawImageCall \<lparr>src = ''/img/desktop/001.jpg'', status = Broken\<rparr> NaN NaN NaN NaN]\<rparr>,
    None)"
proof -
  let ?r = "render [\<lparr>src = ''/img/desktop/001.jpg'', status = Broken\<rparr>] \<lparr>frame = 0\<rparr>
         \<lparr>width = 800, height = 600, layers = [Cleared 0 0 1 1], calls = []\<rparr>"
  from render_throws_only_outside_array
    [of "[\<lparr>src = ''/img/desktop/001.jpg'', status = Broken\<rparr>]" "\<lparr>frame = 0\<rparr>"
        "\<lparr>width = 800, height = 600, layers = [Cleared 0 0 1 1], calls = []\<rparr>"]
  have "snd ?r = None" and "fst ?r = \<lparr>width = 800, height = 600, layers = [],
     calls = [ClearRectCall (Fin 0) (Fin 0) (Fin 800) (Fin 600),
              DrawImageCall \<lparr>src = ''/img/desktop/001.jpg'', status = Broken\<rparr> NaN NaN NaN NaN]\<rparr>"
    by (simp_all add: image_at_def num_def)
  then show ?thesis by (simp add: prod_eq_iff)
qed

text \<open>
  Claim C10. The first context call of every \<open>render\<close> is \<open>clearRect\<close> over the whole
  canvas rectangle, for every frame index; that call leaves the canvas blank; and when the
  selected frame cannot be drawn (index outside the array, image failed, pending or of size
  zero) the canvas is blank after \<open>render\<close>: the frame drawn before is erased.
\<close>

theorem render_clears_first:
  "take (Suc (length (calls c))) (calls (fst (render imgs sq c))) =
     calls c @ [ClearRectCall (Fin 0) (Fin 0) (num (width c)) (num (height c))]
   \<and> layers (clearRect (Fin 0) (Fin 0) (num (width c)) (num (height c)) c) = []
   \<and> (\<not> drawable imgs sq \<longrightarrow> layers (fst (render imgs sq c)) = [])"
proof (intro conjI impI)
  show "take (Suc (length (calls c))) (calls (fst (render imgs sq c))) =
     calls c @ [ClearRectCall (Fin 0) (Fin 0) (num (width c)) (num (height c))]"
    by (subst render_calls) simp
  show "layers (clearRect (Fin 0) (Fin 0) (num (width c)) (num (height c)) c) = []"
    by (simp add: clearRect_whole del: clearRect.simps)
  assume nd: "\<not> drawable imgs sq"
  show "layers (fst (render imgs sq c)) = []"
  proof (cases "image_at imgs (frame sq)")
    case None
    then show ?thesis by (simp add: render_outside)
  next
    case (Some img)
    with nd have "img_width img = 0 \<or> img_height img = 0"
      by (simp add: drawable_def)
    with Some show ?thesis using render_not_drawable by blast
  qed
qed

theorem render_clears_first_witness:
  "layers (fst (render [\<lparr>src = ''/img/desktop/001.jpg'', status = Loaded 400 300\<rparr>,
                        \<lparr>src = ''/img/desktop/002.jpg'', status = Broken\<rparr>] \<lparr>frame = 1\<rparr>
     \<lparr>width = 800, height = 600,
      layers = [Painted \<lparr>src = ''/img/desktop/001.jpg'', status = Loaded 400 300\<rparr> 0 0 800 600],
      calls = []\<rparr>)) = []"
  using render_clears_first [of
     "\<lparr>width = 800, height = 600,
      layers = [Painted \<lparr>src = ''/img/desktop/001.jpg'', status = Loaded 400 300\<rparr> 0 0 800 600],
      calls = []\<rparr>"
     "[\<lparr>src = ''/img/desktop/001.jpg'', status = Loaded 400 300\<rparr>,
                        \<lparr>src = ''/img/desktop/002.jpg'', status = Broken\<rparr>]" "\<lparr>frame = 1\<rparr>"]
  by (simp add: drawable_def image_at_def img_width_def)

subsection \<open>Which fields of the page each function changes\<close>

lemma render_page_Some:
  "canvasElement (elements p ! l_section (loaders p ! lid)) = Some c \<Longrightarrow>
   render_page lid sq p =
     (p\<lparr>elements := (elements p)[l_section (loaders p ! lid) :=
          (elements p ! l_section (loaders p ! lid))
            \<lparr>canvasElement := Some (fst (render (images (loaders p ! lid)) sq c))\<rparr>]\<rparr>,
      snd (render (images (loaders p ! lid)) sq c))"
  by (simp add: render_page_def Let_def case_prod_beta)

lemma render_page_fields [simp]:
  "loaders (fst (render_page lid sq p)) = loaders p"
  "animations (fst (render_page lid sq p)) = animations p"
  "resizeListeners (fst (render_page lid sq p)) = resizeListeners p"
  "viewportWidth (fst (render_page lid sq p)) = viewportWidth p"
  "clientWidth (fst (render_page lid sq p)) = clientWidth p"
  "scrollY (fst (render_page lid sq p)) = scrollY p"
  "globalImagesRemaining (fst (render_page lid sq p)) = globalImagesRemaining p"
  "totalImagesCount (fst (render_page lid sq p)) = totalImagesCount p"
  "timeouts (fst (render_page lid sq p)) = timeouts p"
  "lenisResizes (fst (render_page lid sq p)) = lenisResizes p"
  "uncaught (fst (render_page lid sq p)) = uncaught p"
  by (simp_all add: render_page_def Let_def case_prod_beta split: option.splits)

lemma render_page_outcome:
  "canvasElement (elements p ! l_section (loaders p ! lid)) \<noteq> None \<Longrightarrow>
   snd (render_page lid sq p) =
     (if image_at (images (loaders p ! lid)) (frame sq) = None then Some TypeError else None)"
  by (auto simp: render_page_Some render_outcome)

lemma render_page_no_canvas:
  "canvasElement (elements p ! l_section (loaders p ! lid)) = None \<Longrightarrow>
   render_page lid sq p = (p, None)"
  by (simp add: render_page_def Let_def)

lemma render_page_in_range:
  "image_at (images (loaders p ! lid)) (frame sq) \<noteq> None \<Longrightarrow> snd (render_page lid sq p) = None"
  by (cases "canvasElement (elements p ! l_section (loaders p ! lid))")
     (simp_all add: render_page_no_canvas render_page_outcome)

lemma bindBlock_fields [simp]:
  "loaders (fst (bindBlock lid b p)) = loaders p"
  "resizeListeners (fst (bindBlock lid b p)) = resizeListeners p"
  "viewportWidth (fst (bindBlock lid b p)) = viewportWidth p"
  "clientWidth (fst (bindBlock lid b p)) = clientWidth p"
  "scrollY (fst (bindBlock lid b p)) = scrollY p"
  "globalImagesRemaining (fst (bindBlock lid b p)) = globalImagesRemaining p"
  "totalImagesCount (fst (bindBlock lid b p)) = totalImagesCount p"
  "timeouts (fst (bindBlock lid b p)) = timeouts p"
  "lenisResizes (fst (bindBlock lid b p)) = lenisResizes p"
  "uncaught (fst (bindBlock lid b p)) = uncaught p"
  by (simp_all add: bindBlock_def Let_def)

lemma bindBlocks_fields [simp]:
  "loaders (fst (bindBlocks lid bs p)) = loaders p \<and>
   resizeListeners (fst (bindBlocks lid bs p)) = resizeListeners p \<and>
   viewportWidth (fst (bindBlocks lid bs p)) = viewportWidth p \<and>
   clientWidth (fst (bindBlocks lid bs p)) = clientWidth p \<and>
   scrollY (fst (bindBlocks lid bs p)) = scrollY p \<and>
   globalImagesRemaining (fst (bindBlocks lid bs p)) = globalImagesRemaining p \<and>
   totalImagesCount (fst (bindBlocks lid bs p)) = totalImagesCount p \<and>
   timeouts (fst (bindBlocks lid bs p)) = timeouts p \<and>
   lenisResizes (fst (bindBlocks lid bs p)) = lenisResizes p \<and>
   uncaught (fst (bindBlocks lid bs p)) = uncaught p"
proof (induction bs arbitrary: p)
  case Nil
  show ?case by simp
next
  case (Cons b bs)
  have "fst (bindBlocks lid (b # bs) p) =
      (case snd (bindBlock lid b p) of Some e \<Rightarrow> fst (bindBlock lid b p)
        | None \<Rightarrow> fst (bindBlocks lid bs (fst (bindBlock lid b p))))"
    by (cases "bindBlock lid b p") (auto split: option.splits)
  then show ?case
    by (simp add: Cons.IH split: option.splits)
qed

lemma updateGlobalImageCount_fields [simp]:
  "loaders (updateGlobalImageCount p) = loaders p"
  "animations (updateGlobalImageCount p) = animations p"
  "resizeListeners (updateGlobalImageCount p) = resizeListeners p"
  "viewportWidth (updateGlobalImageCount p) = viewportWidth p"
  "clientWidth (updateGlobalImageCount p) = clientWidth p"
  "scrollY (updateGlobalImageCount p) = scrollY p"
  "elements (updateGlobalImageCount p) = elements p"
  "totalImagesCount (updateGlobalImageCount p) = totalImagesCount p"
  "lenisResizes (updateGlobalImageCount p) = lenisResizes p"
  "uncaught (updateGlobalImageCount p) = uncaught p"
  "globalImagesRemaining (updateGlobalImageCount p) = globalImagesRemaining p - 1"
  "timeouts (updateGlobalImageCount p) =
     (if globalImagesRemaining p = 1 then timeouts p @ [500] else timeouts p)"
  by (simp_all add: updateGlobalImageCount_def Let_def)

lemma countLoaded_fields [simp]:
  "loaders (countLoaded lid p) =
     (loaders p)[lid := (loaders p ! lid)\<lparr>imagesLoaded := imagesLoaded (loaders p ! lid) + 1\<rparr>]"
  "animations (countLoaded lid p) = animations p"
  "resizeListeners (countLoaded lid p) = resizeListeners p"
  "viewportWidth (countLoaded lid p) = viewportWidth p"
  "clientWidth (countLoaded lid p) = clientWidth p"
  "scrollY (countLoaded lid p) = scrollY p"
  "elements (countLoaded lid p) = elements p"
  "totalImagesCount (countLoaded lid p) = totalImagesCount p"
  "globalImagesRemaining (countLoaded lid p) = globalImagesRemaining p"
  "timeouts (countLoaded lid p) = timeouts p"
  "lenisResizes (countLoaded lid p) = lenisResizes p"
  "uncaught (countLoaded lid p) = uncaught p"
  by (simp_all add: countLoaded_def)

lemma set_status_fields [simp]:
  "loaders (set_status lid i st p) =
     (loaders p)[lid := (loaders p ! lid)
        \<lparr>images := (images (loaders p ! lid))[i := (images (loaders p ! lid) ! i)\<lparr>status := st\<rparr>]\<rparr>]"
  "animations (set_status lid i st p) = animations p"
  "resizeListeners (set_status lid i st p) = resizeListeners p"
  "viewportWidth (set_status lid i st p) = viewportWidth p"
  "clientWidth (set_status lid i st p) = clientWidth p"
  "scrollY (set_status lid i st p) = scrollY p"
  "elements (set_status lid i st p) = elements p"
  "totalImagesCount (set_status lid i st p) = totalImagesCount p"
  "globalImagesRemaining (set_status lid i st p) = globalImagesRemaining p"
  "timeouts (set_status lid i st p) = timeouts p"
  "lenisResizes (set_status lid i st p) = lenisResizes p"
  "uncaught (set_status lid i st p) = uncaught p"
  by (simp_all add: set_status_def)

lemma handled_fields [simp]:
  "loaders (handled r) = loaders (fst r)"
  "animations (handled r) = animations (fst r)"
  "resizeListeners (handled r) = resizeListeners (fst r)"
  "viewportWidth (handled r) = viewportWidth (fst r)"
  "clientWidth (handled r) = clientWidth (fst r)"
  "scrollY (handled r) = scrollY (fst r)"
  "elements (handled r) = elements (fst r)"
  "totalImagesCount (handled r) = totalImagesCount (fst r)"
  "globalImagesRemaining (handled r) = globalImagesRemaining (fst r)"
  "timeouts (handled r) = timeouts (fst r)"
  "lenisResizes (handled r) = lenisResizes (fst r)"
  by (simp_all add: handled_def split: prod.splits option.splits)

lemma initCanvasAnimations_alt:
  "initCanvasAnimations lid p =
     (let l = loaders p ! lid;
          p0 = p\<lparr>loaders := (loaders p)[lid := l\<lparr>readyCalls := readyCalls l + 1\<rparr>]\<rparr>;
          r1 = bindBlocks lid (blocks (elements p0 ! l_section l)) p0;
          r2 = render_page lid \<lparr>frame = 0\<rparr> (fst r1)
      in if snd r1 \<noteq> None then r1
         else if snd r2 \<noteq> None then r2
         else ((fst r2)\<lparr>resizeListeners := resizeListeners (fst r2) @ [lid]\<rparr>, None))"
  by (auto simp: initCanvasAnimations_def Let_def simp del: render_page_fields
      split: prod.splits option.splits)

lemma initCanvasAnimations_fields [simp]:
  "loaders (fst (initCanvasAnimations lid p)) =
     (loaders p)[lid := (loaders p ! lid)\<lparr>readyCalls := readyCalls (loaders p ! lid) + 1\<rparr>]"
  "viewportWidth (fst (initCanvasAnimations lid p)) = viewportWidth p"
  "clientWidth (fst (initCanvasAnimations lid p)) = clientWidth p"
  "scrollY (fst (initCanvasAnimations lid p)) = scrollY p"
  "globalImagesRemaining (fst (initCanvasAnimations lid p)) = globalImagesRemaining p"
  "totalImagesCount (fst (initCanvasAnimations lid p)) = totalImagesCount p"
  "timeouts (fst (initCanvasAnimations lid p)) = timeouts p"
  "lenisResizes (fst (initCanvasAnimations lid p)) = lenisResizes p"
  "uncaught (fst (initCanvasAnimations lid p)) = uncaught p"
  by (simp_all add: initCanvasAnimations_alt Let_def)

lemma whenAllLoaded_fields [simp]:
  "loaders (fst (whenAllLoaded lid p)) =
     (if int (imagesLoaded (loaders p ! lid)) = frameCount (loaders p ! lid)
      then (loaders p)[lid := (loaders p ! lid)\<lparr>readyCalls := readyCalls (loaders p ! lid) + 1\<rparr>]
      else loaders p)"
  "viewportWidth (fst (whenAllLoaded lid p)) = viewportWidth p"
  "clientWidth (fst (whenAllLoaded lid p)) = clientWidth p"
  "scrollY (fst (whenAllLoaded lid p)) = scrollY p"
  "globalImagesRemaining (fst (whenAllLoaded lid p)) = globalImagesRemaining p"
  "totalImagesCount (fst (whenAllLoaded lid p)) = totalImagesCount p"
  "timeouts (fst (whenAllLoaded lid p)) = timeouts p"
  "lenisResizes (fst (whenAllLoaded lid p)) = lenisResizes p"
  "uncaught (fst (whenAllLoaded lid p)) = uncaught p"
  by (simp_all add: whenAllLoaded_def)

lemma resizeListener_fields [simp]:
  "loaders (fst (resizeListener lid p)) = loaders p"
  "viewportWidth (fst (resizeListener lid p)) = viewportWidth p"
  "clientWidth (fst (resizeListener lid p)) = clientWidth p"
  "scrollY (fst (resizeListener lid p)) = scrollY p"
  "globalImagesRemaining (fst (resizeListener lid p)) = globalImagesRemaining p"
  "totalImagesCount (fst (resizeListener lid p)) = totalImagesCount p"
  "timeouts (fst (resizeListener lid p)) = timeouts p"
  "lenisResizes (fst (resizeListener lid p)) = lenisResizes p"
  "uncaught (fst (resizeListener lid p)) = uncaught p"
  by (simp_all add: resizeListener_def Let_def split: option.splits)

lemma onerror_fields [simp]:
  "viewportWidth (fst (onerror lid i p)) = viewportWidth p"
  "clientWidth (fst (onerror lid i p)) = clientWidth p"
  "scrollY (fst (onerror lid i p)) = scrollY p"
  "globalImagesRemaining (fst (onerror lid i p)) = globalImagesRemaining p - 1"
  "totalImagesCount (fst (onerror lid i p)) = totalImagesCount p"
  "timeouts (fst (onerror lid i p)) =
     (if globalImagesRemaining p = 1 then timeouts p @ [500] else timeouts p)"
  "lenisResizes (fst (onerror lid i p)) = lenisResizes p"
  by (simp_all add: onerror_def)

lemma onload_alt:
  "onload lid i p =
     (let p1 = updateGlobalImageCount (countLoaded lid p);
          r = (if i = 0 then render_page lid \<lparr>frame = 0\<rparr> p1 else (p1, None))
      in if snd r \<noteq> None then r else whenAllLoaded lid (fst r))"
  by (auto simp: onload_def Let_def simp del: render_page_fields split: prod.splits option.splits)

lemma onload_fields [simp]:
  "viewportWidth (fst (onload lid i p)) = viewportWidth p"
  "clientWidth (fst (onload lid i p)) = clientWidth p"
  "scrollY (fst (onload lid i p)) = scrollY p"
  "globalImagesRemaining (fst (onload lid i p)) = globalImagesRemaining p - 1"
  "totalImagesCount (fst (onload lid i p)) = totalImagesCount p"
  "timeouts (fst (onload lid i p)) =
     (if globalImagesRemaining p = 1 then timeouts p @ [500] else timeouts p)"
  "lenisResizes (fst (onload lid i p)) = lenisResizes p"
  by (simp_all add: onload_alt Let_def)

subsection \<open>What the events do to the closures\<close>

lemma image_at_first: "imgs \<noteq> [] \<Longrightarrow> image_at imgs 0 \<noteq> None"
  by (simp add: image_at_def)

lemma onerror_loaders:
  "lid < length (loaders p) \<Longrightarrow>
   loaders (fst (onerror lid i (set_status lid i st p))) =
     (loaders p)[lid := settle_loader i st (loaders p ! lid)]"
  by (simp add: onerror_def settle_loader_def Let_def)

lemma onload_loaders:
  assumes "lid < length (loaders p)" and "i < length (images (loaders p ! lid))"
  shows "loaders (fst (onload lid i (set_status lid i st p))) =
     (loaders p)[lid := settle_loader i st (loaders p ! lid)]"
proof -
  let ?p1 = "updateGlobalImageCount (countLoaded lid (set_status lid i st p))"
  have "images (loaders ?p1 ! lid) \<noteq> []"
    using assms by auto
  then have "snd (render_page lid \<lparr>frame = 0\<rparr> ?p1) = None"
    by (simp add: render_page_in_range image_at_first)
  then show ?thesis
    using assms(1) by (auto simp: onload_alt settle_loader_def Let_def)
qed

lemma step_settle_loaders:
  "can_settle lid i p \<Longrightarrow>
   loaders (step (ImageLoad lid i w h) p) =
     (loaders p)[lid := settle_loader i (Loaded w h) (loaders p ! lid)]"
  "can_settle lid i p \<Longrightarrow>
   loaders (step (ImageError lid i) p) =
     (loaders p)[lid := settle_loader i Broken (loaders p ! lid)]"
  by (simp_all add: can_settle_def onload_loaders onerror_loaders)

lemma step_not_settle_loaders:
  "\<not> can_settle lid i p \<Longrightarrow> step (ImageLoad lid i w h) p = p"
  "\<not> can_settle lid i p \<Longrightarrow> step (ImageError lid i) p = p"
  by simp_all

subsection \<open>initSections\<close>

lemma initSection_cases:
  "initSection k p = p \<or>
   (\<exists>c P S N. canvasElement (elements p ! k) = Some c \<and> data_prefix (elements p ! k) = Some P \<and>
      data_suffix (elements p ! k) = Some S \<and> data_framecount (elements p ! k) = Some N \<and>
      N \<noteq> 0 \<and>
      initSection k p =
        initCanvas k c P S N (device_of (viewportWidth p))
          (p\<lparr>totalImagesCount := totalImagesCount p + N,
             globalImagesRemaining := globalImagesRemaining p + N\<rparr>))"
  by (auto simp: initSection_def Let_def device_of_def split: option.splits)

lemma initCanvas_fields [simp]:
  "loaders (initCanvas k c P S N D p) = loaders p @
     [\<lparr>l_section = k, l_prefix = P, l_suffix = S, l_device = D, frameCount = N,
       images = map (\<lambda>j. \<lparr>src = currentFrame P D S j, status = Pending\<rparr>) [0..<nat N],
       imagesLoaded = 0, readyCalls = 0\<rparr>]"
  "animations (initCanvas k c P S N D p) = animations p"
  "resizeListeners (initCanvas k c P S N D p) = resizeListeners p"
  "viewportWidth (initCanvas k c P S N D p) = viewportWidth p"
  "clientWidth (initCanvas k c P S N D p) = clientWidth p"
  "scrollY (initCanvas k c P S N D p) = scrollY p"
  "totalImagesCount (initCanvas k c P S N D p) = totalImagesCount p"
  "globalImagesRemaining (initCanvas k c P S N D p) = globalImagesRemaining p"
  "timeouts (initCanvas k c P S N D p) = timeouts p"
  "lenisResizes (initCanvas k c P S N D p) = lenisResizes p"
  "uncaught (initCanvas k c P S N D p) = uncaught p"
  "length (elements (initCanvas k c P S N D p)) = length (elements p)"
  by (simp_all add: initCanvas_def Let_def load_loop_map)

lemma initSection_fields [simp]:
  "animations (initSection k p) = animations p"
  "resizeListeners (initSection k p) = resizeListeners p"
  "viewportWidth (initSection k p) = viewportWidth p"
  "clientWidth (initSection k p) = clientWidth p"
  "scrollY (initSection k p) = scrollY p"
  "timeouts (initSection k p) = timeouts p"
  "lenisResizes (initSection k p) = lenisResizes p"
  "uncaught (initSection k p) = uncaught p"
  "length (elements (initSection k p)) = length (elements p)"
  using initSection_cases [of k p] by auto

lemma initSections_fold_fields [simp]:
  "animations (foldl (\<lambda>q k. initSection k q) p ks) = animations p"
  "resizeListeners (foldl (\<lambda>q k. initSection k q) p ks) = resizeListeners p"
  "viewportWidth (foldl (\<lambda>q k. initSection k q) p ks) = viewportWidth p"
  "clientWidth (foldl (\<lambda>q k. initSection k q) p ks) = clientWidth p"
  "scrollY (foldl (\<lambda>q k. initSection k q) p ks) = scrollY p"
  "timeouts (foldl (\<lambda>q k. initSection k q) p ks) = timeouts p"
  "lenisResizes (foldl (\<lambda>q k. initSection k q) p ks) = lenisResizes p"
  "uncaught (foldl (\<lambda>q k. initSection k q) p ks) = uncaught p"
  by (induction ks arbitrary: p) simp_all

lemma initSections_fields [simp]:
  "animations (initSections p) = animations p"
  "resizeListeners (initSections p) = resizeListeners p"
  "viewportWidth (initSections p) = viewportWidth p"
  "clientWidth (initSections p) = clientWidth p"
  "scrollY (initSections p) = scrollY p"
  "timeouts (initSections p) = timeouts p"
  "lenisResizes (initSections p) = lenisResizes p"
  "uncaught (initSections p) = uncaught p"
  by (simp_all add: initSections_def)

subsection \<open>Every closure of a running page is in a closure state\<close>

lemma initSection_closures: "closures_ok w p \<Longrightarrow> closures_ok w (initSection k p)"
  using initSection_cases [of k p]
  by (auto simp: closures_ok_def intro: closure_state.created)

lemma initSections_closures: "closures_ok w p \<Longrightarrow> closures_ok w (initSections p)"
proof -
  have "closures_ok w p \<Longrightarrow> closures_ok w (foldl (\<lambda>q k. initSection k q) p ks)" for ks
    by (induction ks arbitrary: p) (simp_all add: initSection_closures)
  then show "closures_ok w p \<Longrightarrow> closures_ok w (initSections p)"
    by (simp add: initSections_def)
qed

lemma script_closures: "closures_ok w (script doc w sy)"
proof -
  have "closures_ok w \<lparr>viewportWidth = w, clientWidth = w, scrollY = sy, elements = doc,
      globalImagesRemaining = 0, totalImagesCount = 0, loaders = [], animations = [],
      resizeListeners = [], timeouts = [], lenisResizes = 0, uncaught = []\<rparr>"
    by (simp add: closures_ok_def)
  then show ?thesis
    by (simp add: script_def Let_def initSections_closures)
qed

lemma list_update_all:
  "\<forall>x \<in> set xs. P x \<Longrightarrow> (n < length xs \<Longrightarrow> P y) \<Longrightarrow> \<forall>x \<in> set (xs[n := y]). P x"
  by (metis in_set_conv_nth length_list_update nth_list_update_eq nth_list_update_neq)

lemma settle_closures:
  assumes "closures_ok w p" and "can_settle lid i p" and "st \<noteq> Pending"
  shows "\<forall>l \<in> set ((loaders p)[lid := settle_loader i st (loaders p ! lid)]). closure_state w l"
proof (rule list_update_all)
  show "\<forall>l \<in> set (loaders p). closure_state w l"
    using assms(1) by (simp add: closures_ok_def)
  show "closure_state w (settle_loader i st (loaders p ! lid))"
    using assms by (auto simp: closures_ok_def can_settle_def intro!: closure_state.completed)
qed

lemma resizeListener_closures: "closures_ok w p \<Longrightarrow> closures_ok w (handled (resizeListener lid p))"
  by (simp add: closures_ok_def)

lemma resizeListeners_closures:
  "closures_ok w p \<Longrightarrow> closures_ok w (foldl (\<lambda>q lid. handled (resizeListener lid q)) p lids)"
  by (induction lids arbitrary: p) (simp_all add: resizeListener_closures)

lemma step_closures: "closures_ok w p \<Longrightarrow> closures_ok w (step e p)"
proof (cases e)
  case (ImageLoad lid i iw ih)
  assume ok: "closures_ok w p"
  show ?thesis
  proof (cases "can_settle lid i p")
    case True
    then show ?thesis
      using ok settle_closures [OF ok True, of "Loaded iw ih"]
      by (simp add: ImageLoad closures_ok_def step_settle_loaders del: step.simps)
         (simp add: closures_ok_def)
  next
    case False
    then show ?thesis using ok by (simp add: ImageLoad)
  qed
next
  case (ImageError lid i)
  assume ok: "closures_ok w p"
  show ?thesis
  proof (cases "can_settle lid i p")
    case True
    then show ?thesis
      using ok settle_closures [OF ok True, of Broken]
      by (simp add: ImageError closures_ok_def step_settle_loaders del: step.simps)
         (simp add: closures_ok_def)
  next
    case False
    then show ?thesis using ok by (simp add: ImageError)
  qed
next
  case (AnimationUpdate n t)
  assume "closures_ok w p"
  then show ?thesis by (simp add: AnimationUpdate closures_ok_def Let_def)
next
  case (WindowScroll y)
  assume "closures_ok w p"
  then show ?thesis by (simp add: WindowScroll closures_ok_def)
next
  case (ParentResize k pw ph)
  assume "closures_ok w p"
  then show ?thesis by (simp add: ParentResize closures_ok_def)
next
  case (WindowResize nw)
  assume ok: "closures_ok w p"
  have "closures_ok w (p\<lparr>clientWidth := nw\<rparr>)"
    using ok by (simp add: closures_ok_def)
  then have "closures_ok w (foldl (\<lambda>q lid. handled (resizeListener lid q))
      (p\<lparr>clientWidth := nw\<rparr>) (resizeListeners p))"
    by (rule resizeListeners_closures)
  then show ?thesis
    by (simp add: WindowResize Let_def initSections_closures)
next
  case TimeoutFires
  assume "closures_ok w p"
  then show ?thesis by (simp add: TimeoutFires closures_ok_def split: list.splits)
qed

lemma run_closures: "closures_ok w p \<Longrightarrow> closures_ok w (run evs p)"
  unfolding run_def by (induction evs arbitrary: p) (simp_all add: step_closures)

lemma page_closures:
  "l \<in> set (loaders (run evs (script doc w sy))) \<Longrightarrow> closure_state w l"
  using run_closures [OF script_closures, of w evs doc sy] by (simp add: closures_ok_def)

subsection \<open>What holds in every closure state\<close>

lemma settled_update:
  "i < length imgs \<Longrightarrow> status (imgs ! i) = Pending \<Longrightarrow> st \<noteq> Pending \<Longrightarrow>
   settled (imgs[i := (imgs ! i)\<lparr>status := st\<rparr>]) = Suc (settled imgs)"
proof (induction imgs arbitrary: i)
  case Nil
  then show ?case by simp
next
  case (Cons a imgs)
  then show ?case by (cases i) (auto simp: settled_def)
qed

lemma pending_update:
  "i < length imgs \<Longrightarrow> status (imgs ! i) = Pending \<Longrightarrow> st \<noteq> Pending \<Longrightarrow>
   Suc (pending_imgs (imgs[i := (imgs ! i)\<lparr>status := st\<rparr>])) = pending_imgs imgs"
proof (induction imgs arbitrary: i)
  case Nil
  then show ?case by simp
next
  case (Cons a imgs)
  then show ?case by (cases i) (auto simp: pending_imgs_def)
qed

lemma settled_pending: "settled imgs + pending_imgs imgs = length imgs"
  by (induction imgs) (auto simp: settled_def pending_imgs_def)

lemma settled_less:
  "i < length imgs \<Longrightarrow> status (imgs ! i) = Pending \<Longrightarrow> settled imgs < length imgs"
proof -
  assume "i < length imgs" "status (imgs ! i) = Pending"
  then have "imgs ! i \<in> set (filter (\<lambda>im. status im = Pending) imgs)"
    by simp
  then have "0 < pending_imgs imgs"
    unfolding pending_imgs_def by (metis length_pos_if_in_set)
  then show ?thesis using settled_pending [of imgs] by simp
qed

lemma closure_state_urls:
  "closure_state w l \<Longrightarrow>
   l_device l = device_of w \<and>
   map src (images l) = map (currentFrame (l_prefix l) (device_of w) (l_suffix l)) [0..<length (images l)]"
proof (induction rule: closure_state.induct)
  case (created N k P S)
  show ?case by (simp add: comp_def)
next
  case (completed l i st)
  have "map src ((images l)[i := (images l ! i)\<lparr>status := st\<rparr>]) = map src (images l)"
    using completed.hyps(2) by (simp add: map_update list_update_same_conv)
  with completed.IH show ?case
    by (simp add: settle_loader_def Let_def)
qed

lemma closure_state_counts:
  "closure_state w l \<Longrightarrow>
   frameCount l \<noteq> 0 \<and> length (images l) = nat (frameCount l) \<and>
   imagesLoaded l = settled (images l) \<and>
   readyCalls l = (if int (imagesLoaded l) = frameCount l then 1 else 0)"
proof (induction rule: closure_state.induct)
  case (created N k P S)
  then show ?case by (simp add: settled_def comp_def)
next
  case (completed l i st)
  from completed.hyps have up: "settled ((images l)[i := (images l ! i)\<lparr>status := st\<rparr>]) = Suc (settled (images l))"
    by (simp add: settled_update)
  from completed.hyps have "settled (images l) < length (images l)"
    by (simp add: settled_less)
  with completed.IH have "int (imagesLoaded l) < frameCount l"
    by auto
  with completed.IH up show ?case
    by (simp add: settle_loader_def Let_def)
qed

text \<open>
  Claim C4. On every page and after every sequence of events, a closure of \<open>initCanvas\<close>
  with frame count \<open>N > 0\<close> holds \<open>N\<close> images, its \<open>imagesLoaded\<close> is the number of
  images that have settled, loaded and failed alike, and \<open>initCanvasAnimations\<close> has
  been called from it exactly once if all \<open>N\<close> images have settled and not at all
  before that, in whatever order the completions arrive and whatever else happens in between.
\<close>

theorem ready_exactly_once:
  "\<forall>l \<in> set (loaders (run evs (script doc w sy))). 0 < frameCount l \<longrightarrow>
     int (length (images l)) = frameCount l \<and>
     imagesLoaded l = settled (images l) \<and>
     readyCalls l = (if settled (images l) = length (images l) then 1 else 0)"
proof (intro ballI impI)
  fix l
  assume "l \<in> set (loaders (run evs (script doc w sy)))" and pos: "0 < frameCount l"
  then have "closure_state w l"
    by (simp add: page_closures)
  from closure_state_counts [OF this] pos
  show "int (length (images l)) = frameCount l \<and>
     imagesLoaded l = settled (images l) \<and>
     readyCalls l = (if settled (images l) = length (images l) then 1 else 0)"
    by auto
qed

text \<open>
  Claim C9. On every page and after every sequence of events, also after the document
  has changed its width and \<open>initSections\<close> has run again, every closure holds the device
  variant of the width captured when the script was loaded, and each of its images was
  requested from the URL of that variant.
\<close>

theorem device_fixed_at_load:
  "\<forall>l \<in> set (loaders (run evs (script doc w sy))).
     l_device l = (if 768 \<le> w then ''desktop'' else ''mobile'') \<and>
     map src (images l) =
       map (currentFrame (l_prefix l) (if 768 \<le> w then ''desktop'' else ''mobile'') (l_suffix l))
         [0..<length (images l)]"
proof
  fix l
  assume "l \<in> set (loaders (run evs (script doc w sy)))"
  then have "closure_state w l"
    by (simp add: page_closures)
  from closure_state_urls [OF this]
  show "l_device l = (if 768 \<le> w then ''desktop'' else ''mobile'') \<and>
     map src (images l) =
       map (currentFrame (l_prefix l) (if 768 \<le> w then ''desktop'' else ''mobile'') (l_suffix l))
         [0..<length (images l)]"
    by (simp add: device_of_def)
qed

subsection \<open>Running the example documents\<close>

lemmas exec_defs = can_settle_def onload_def onerror_def set_status_def countLoaded_def
  updateGlobalImageCount_def render_page_def render_def handled_def whenAllLoaded_def
  initCanvasAnimations_def bindBlock_def resizeListener_def image_at_def img_width_def
  img_height_def num_def Let_def initSections_def initSection_def initCanvas_def load_loop_map
  run_def script_def demo_section_def demo_canvas_def

lemma five_frames_four_settled:
  "map (\<lambda>l. (frameCount l, map status (images l), readyCalls l))
     (loaders (run [ImageLoad 0 2 400 300, ImageError 0 0, ImageLoad 0 4 400 300, ImageError 0 3]
        (script [demo_section 5 []] 1024 0))) =
   [(5, [Broken, Pending, Loaded 400 300, Broken, Loaded 400 300], 0)]"
  by (simp add: exec_defs upt_rec)

lemma five_frames_all_settled:
  "map (\<lambda>l. (frameCount l, map status (images l)))
     (loaders (run [ImageLoad 0 2 400 300, ImageError 0 0, ImageLoad 0 4 400 300, ImageError 0 3,
                    ImageLoad 0 1 400 300]
        (script [demo_section 5 []] 1024 0))) =
   [(5, [Broken, Loaded 400 300, Loaded 400 300, Broken, Loaded 400 300])]"
  by (simp add: exec_defs upt_rec)

lemma settled_status: "settled imgs = length (filter (\<lambda>s. s \<noteq> Pending) (map status imgs))"
  by (induction imgs) (simp_all add: settled_def)

lemma map_singleton: "map f xs = [y] \<Longrightarrow> xs = [hd xs] \<and> f (hd xs) = y"
  by (cases xs) auto

theorem ready_exactly_once_witness:
  "readyCalls (hd (loaders (run [ImageLoad 0 2 400 300, ImageError 0 0, ImageLoad 0 4 400 300,
                                 ImageError 0 3]
        (script [demo_section 5 []] 1024 0)))) = 0
   \<and> readyCalls (hd (loaders (run [ImageLoad 0 2 400 300, ImageError 0 0, ImageLoad 0 4 400 300,
                                 ImageError 0 3, ImageLoad 0 1 400 300]
        (script [demo_section 5 []] 1024 0)))) = 1"
proof -
  let ?p = "run [ImageLoad 0 2 400 300, ImageError 0 0, ImageLoad 0 4 400 300,
                 ImageError 0 3, ImageLoad 0 1 400 300] (script [demo_section 5 []] 1024 0)"
  from map_singleton [OF five_frames_all_settled]
  have l: "loaders ?p = [hd (loaders ?p)]" and fc: "frameCount (hd (loaders ?p)) = 5"
    and st: "map status (images (hd (loaders ?p))) =
      [Broken, Loaded 400 300, Loaded 400 300, Broken, Loaded 400 300]"
    by auto
  have mem: "hd (loaders ?p) \<in> set (loaders ?p)"
    by (subst l) simp
  have len: "length (images (hd (loaders ?p))) = 5"
    using arg_cong [OF st, of length] by simp
  have "settled (images (hd (loaders ?p))) = 5"
    unfolding settled_status st by simp
  with ready_exactly_once [of "[ImageLoad 0 2 400 300, ImageError 0 0, ImageLoad 0 4 400 300,
                 ImageError 0 3, ImageLoad 0 1 400 300]" "[demo_section 5 []]" 1024 0] mem fc len
  have "readyCalls (hd (loaders ?p)) = 1" by auto
  moreover from map_singleton [OF five_frames_four_settled]
  have "readyCalls (hd (loaders (run [ImageLoad 0 2 400 300, ImageError 0 0,
      ImageLoad 0 4 400 300, ImageError 0 3] (script [demo_section 5 []] 1024 0)))) = 0"
    by simp
  ultimately show ?thesis by simp
qed

lemma resized_two_closures:
  "map (\<lambda>l. (l_prefix l, l_suffix l, length (images l)))
     (loaders (run [WindowResize 500] (script [demo_section 2 []] 1024 0))) =
   [(''/img/'', ''.jpg'', 2), (''/img/'', ''.jpg'', 2)]"
  by (simp add: exec_defs upt_rec)

theorem device_fixed_at_load_witness:
  "clientWidth (run [WindowResize 500] (script [demo_section 2 []] 1024 0)) = 500 \<and>
   map (\<lambda>l. map src (images l)) (loaders (run [WindowResize 500] (script [demo_section 2 []] 1024 0))) =
     [[''/img/desktop/001.jpg'', ''/img/desktop/002.jpg''],
      [''/img/desktop/001.jpg'', ''/img/desktop/002.jpg'']]"
proof -
  let ?p = "run [WindowResize 500] (script [demo_section 2 []] 1024 0)"
  have urls: "map (currentFrame ''/img/'' ''desktop'' ''.jpg'') [0..<2] =
      [''/img/desktop/001.jpg'', ''/img/desktop/002.jpg'']"
    by code_simp
  have "\<forall>l \<in> set (loaders ?p). map src (images l) =
       map (currentFrame (l_prefix l) ''desktop'' (l_suffix l)) [0..<length (images l)]"
    using device_fixed_at_load [of "[WindowResize 500]" "[demo_section 2 []]" 1024 0] by simp
  then have "map (\<lambda>l. map src (images l)) (loaders ?p) =
      map (\<lambda>l. map (currentFrame (l_prefix l) ''desktop'' (l_suffix l)) [0..<length (images l)]) (loaders ?p)"
    by simp
  also have "\<dots> = map (\<lambda>(P, S, n). map (currentFrame P ''desktop'' S) [0..<n])
      (map (\<lambda>l. (l_prefix l, l_suffix l, length (images l))) (loaders ?p))"
    by (simp add: comp_def)
  also have "\<dots> = [[''/img/desktop/001.jpg'', ''/img/desktop/002.jpg''],
      [''/img/desktop/001.jpg'', ''/img/desktop/002.jpg'']]"
    by (simp only: resized_two_closures list.map prod.case urls)
  finally have "map (\<lambda>l. map src (images l)) (loaders ?p) =
     [[''/img/desktop/001.jpg'', ''/img/desktop/002.jpg''],
      [''/img/desktop/001.jpg'', ''/img/desktop/002.jpg'']]" .
  moreover have "clientWidth ?p = 500"
    by (simp add: exec_defs)
  ultimately show ?thesis by simp
qed

subsection \<open>The global counters while the sections are initialised once\<close>

lemma sum_list_map_update:
  "n < length xs \<Longrightarrow>
   sum_list (map f (xs[n := y])) + f (xs ! n) = sum_list (map f xs) + (f y :: nat)"
proof (induction xs arbitrary: n)
  case Nil
  then show ?case by simp
next
  case (Cons x xs)
  then show ?case by (cases n) auto
qed

lemma settle_loader_images:
  "images (settle_loader i st l) = (images l)[i := (images l ! i)\<lparr>status := st\<rparr>]"
  by (simp add: settle_loader_def Let_def)

lemma settle_pending:
  assumes "can_settle lid i p" and "st \<noteq> Pending"
    and "loaders p' = (loaders p)[lid := settle_loader i st (loaders p ! lid)]"
  shows "Suc (pending p') = pending p" and "nimages p' = nimages p" and "0 < nimages p"
proof -
  let ?l = "loaders p ! lid"
  from assms(1) have lid: "lid < length (loaders p)" and i: "i < length (images ?l)"
    and pen: "status (images ?l ! i) = Pending"
    by (simp_all add: can_settle_def)
  have one: "Suc (pending_imgs (images (settle_loader i st ?l))) = pending_imgs (images ?l)"
    using i pen assms(2) by (simp add: settle_loader_images pending_update)
  from sum_list_map_update [OF lid, of "\<lambda>l. pending_imgs (images l)" "settle_loader i st ?l"] one
  show "Suc (pending p') = pending p"
    by (simp add: pending_def assms(3))
  from sum_list_map_update [OF lid, of "\<lambda>l. length (images l)" "settle_loader i st ?l"]
  show same: "nimages p' = nimages p"
    by (simp add: nimages_def assms(3) settle_loader_images)
  have "?l \<in> set (loaders p)"
    using lid by simp
  then have "length (images ?l) \<le> nimages p"
    unfolding nimages_def by (simp add: member_le_sum_list)
  with i show "0 < nimages p" by simp
qed

lemma settle_progress:
  assumes ok: "progress_ok w p" and cs: "can_settle lid i p" and st: "st \<noteq> Pending"
    and l: "loaders p' = (loaders p)[lid := settle_loader i st (loaders p ! lid)]"
    and c: "clientWidth p' = clientWidth p"
    and r: "globalImagesRemaining p' = globalImagesRemaining p - 1"
    and t: "timeouts p' = (if globalImagesRemaining p = 1 then timeouts p @ [500] else timeouts p)"
    and z: "lenisResizes p' = lenisResizes p"
  shows "progress_ok w p'"
proof -
  from settle_pending [OF cs st l]
  have p1: "Suc (pending p') = pending p" and n: "nimages p' = nimages p" and pos: "0 < nimages p"
    by simp_all
  from ok have rem: "globalImagesRemaining p = int (pending p)"
    and sched: "length (timeouts p) + lenisResizes p = (if pending p = 0 \<and> 0 < nimages p then 1 else 0)"
    and all500: "list_all (\<lambda>t. t = 500) (timeouts p)"
    and side: "(768 \<le> clientWidth p) = (768 \<le> w)"
    by (simp_all add: progress_ok_def)
  from p1 have pp: "pending p = Suc (pending p')" by simp
  show ?thesis
    unfolding progress_ok_def
  proof (intro conjI)
    show "(768 \<le> clientWidth p') = (768 \<le> w)" using side c by simp
    show "globalImagesRemaining p' = int (pending p')" using rem r pp by simp
    show "length (timeouts p') + lenisResizes p' = (if pending p' = 0 \<and> 0 < nimages p' then 1 else 0)"
      using sched rem pp n pos t z by auto
    show "list_all (\<lambda>t. t = 500) (timeouts p')" using all500 t by simp
  qed
qed

lemma resize_fold_fields [simp]:
  "loaders (foldl (\<lambda>q lid. handled (resizeListener lid q)) p lids) = loaders p"
  "viewportWidth (foldl (\<lambda>q lid. handled (resizeListener lid q)) p lids) = viewportWidth p"
  "clientWidth (foldl (\<lambda>q lid. handled (resizeListener lid q)) p lids) = clientWidth p"
  "globalImagesRemaining (foldl (\<lambda>q lid. handled (resizeListener lid q)) p lids) = globalImagesRemaining p"
  "totalImagesCount (foldl (\<lambda>q lid. handled (resizeListener lid q)) p lids) = totalImagesCount p"
  "timeouts (foldl (\<lambda>q lid. handled (resizeListener lid q)) p lids) = timeouts p"
  "lenisResizes (foldl (\<lambda>q lid. handled (resizeListener lid q)) p lids) = lenisResizes p"
  by (induction lids arbitrary: p) simp_all

lemma pending_cong:
  "loaders p' = loaders p \<Longrightarrow> pending p' = pending p \<and> nimages p' = nimages p"
  by (simp add: pending_def nimages_def)

lemma progress_ok_cong:
  assumes "progress_ok w p" and "loaders p' = loaders p"
    and "(768 \<le> clientWidth p') = (768 \<le> clientWidth p)"
    and "globalImagesRemaining p' = globalImagesRemaining p"
    and "timeouts p' = timeouts p" and "lenisResizes p' = lenisResizes p"
  shows "progress_ok w p'"
  using assms pending_cong [OF assms(2)] by (simp add: progress_ok_def)

lemma step_progress:
  assumes ok: "progress_ok w p" and side: "same_side w e"
  shows "progress_ok w (step e p)"
proof (cases e)
  case (ImageLoad lid i iw ih)
  show ?thesis
  proof (cases "can_settle lid i p")
    case True
    show ?thesis
      unfolding ImageLoad
      by (rule settle_progress [OF ok True, of "Loaded iw ih"])
         (simp_all add: True step_settle_loaders(1) del: step.simps, simp_all add: True)
  next
    case False
    then show ?thesis using ok by (simp add: ImageLoad)
  qed
next
  case (ImageError lid i)
  show ?thesis
  proof (cases "can_settle lid i p")
    case True
    show ?thesis
      unfolding ImageError
      by (rule settle_progress [OF ok True, of Broken])
         (simp_all add: True step_settle_loaders(2) del: step.simps, simp_all add: True)
  next
    case False
    then show ?thesis using ok by (simp add: ImageError)
  qed
next
  case (AnimationUpdate n t)
  show ?thesis
    unfolding AnimationUpdate by (rule progress_ok_cong [OF ok]) (simp_all add: Let_def)
next
  case (WindowScroll y)
  show ?thesis
    unfolding WindowScroll by (rule progress_ok_cong [OF ok]) simp_all
next
  case (ParentResize k pw ph)
  show ?thesis
    unfolding ParentResize by (rule progress_ok_cong [OF ok]) simp_all
next
  case (WindowResize nw)
  with side have s: "(768 \<le> nw) = (768 \<le> w)" by simp
  from ok have c: "(768 \<le> clientWidth p) = (768 \<le> w)"
    by (simp add: progress_ok_def)
  from s c have no1: "\<not> (768 \<le> nw \<and> \<not> 768 \<le> clientWidth p)"
    and no2: "\<not> (nw \<le> 767 \<and> \<not> clientWidth p \<le> 767)"
    by auto
  have eq: "step (WindowResize nw) p =
      foldl (\<lambda>q lid. handled (resizeListener lid q)) (p\<lparr>clientWidth := nw\<rparr>) (resizeListeners p)"
    using no1 no2 by (auto simp: Let_def)
  show ?thesis
    unfolding WindowResize eq using s c by (intro progress_ok_cong [OF ok]) simp_all
next
  case TimeoutFires
  show ?thesis
  proof (cases "timeouts p")
    case Nil
    then show ?thesis using ok by (simp add: TimeoutFires)
  next
    case (Cons t ts)
    have "pending (p\<lparr>timeouts := ts, lenisResizes := lenisResizes p + 1\<rparr>) = pending p"
      "nimages (p\<lparr>timeouts := ts, lenisResizes := lenisResizes p + 1\<rparr>) = nimages p"
      by (simp_all add: pending_def nimages_def)
    then show ?thesis
      using ok Cons by (simp add: TimeoutFires progress_ok_def)
  qed
qed

lemma run_progress:
  "progress_ok w p \<Longrightarrow> list_all (same_side w) evs \<Longrightarrow> progress_ok w (run evs p)"
  unfolding run_def by (induction evs arbitrary: p) (simp_all add: step_progress)

lemma pending_imgs_new:
  "pending_imgs (map (\<lambda>j. \<lparr>src = f j, status = Pending\<rparr>) js) = length js"
  by (induction js) (simp_all add: pending_imgs_def)

lemma initCanvas_counts_nonneg:
  assumes "counts_nonneg (elements p)"
  shows "counts_nonneg (elements (initCanvas k c P S N D p))"
proof (cases "k < length (elements p)")
  case True
  let ?P = "\<lambda>s. case data_framecount s of None \<Rightarrow> True | Some n \<Rightarrow> 0 \<le> n"
  from assms True have "?P (elements p ! k)"
    by (simp add: counts_nonneg_def list_all_length)
  then have "?P ((elements p ! k)\<lparr>canvasElement := Some c'\<rparr>)" for c'
    by simp
  with assms show ?thesis
    unfolding counts_nonneg_def initCanvas_def Let_def list_all_iff
    using set_update_subset_insert [of "elements p" k] by fastforce
next
  case False
  then have "length (elements p) \<le> k" by simp
  with assms show ?thesis by (simp add: initCanvas_def Let_def list_update_beyond)
qed

lemma initSection_fresh:
  assumes "counters_fresh p" and "k < length (elements p)"
  shows "counters_fresh (initSection k p)"
  using initSection_cases [of k p]
proof (elim disjE exE conjE)
  assume "initSection k p = p"
  with assms(1) show ?thesis by simp
next
  fix c P S N
  assume fc: "data_framecount (elements p ! k) = Some N"
    and eq: "initSection k p = initCanvas k c P S N (device_of (viewportWidth p))
          (p\<lparr>totalImagesCount := totalImagesCount p + N,
             globalImagesRemaining := globalImagesRemaining p + N\<rparr>)"
  from assms have "0 \<le> N"
    using fc by (auto simp: counters_fresh_def counts_nonneg_def list_all_length split: option.splits)
  moreover have "counts_nonneg (elements (initSection k p))"
    unfolding eq using assms(1) by (intro initCanvas_counts_nonneg) (simp add: counters_fresh_def)
  ultimately show ?thesis
    using assms(1) unfolding eq
    by (simp add: counters_fresh_def pending_def nimages_def pending_imgs_new)
qed

lemma initSections_fresh:
  assumes "counters_fresh p"
  shows "counters_fresh (initSections p)"
proof -
  have "counters_fresh q \<Longrightarrow> \<forall>k \<in> set ks. k < length (elements q) \<Longrightarrow>
      counters_fresh (foldl (\<lambda>q k. initSection k q) q ks)" for ks q
    by (induction ks arbitrary: q) (simp_all add: initSection_fresh)
  from this [OF assms, of "[0..<length (elements p)]"] show ?thesis
    by (simp add: initSections_def)
qed

lemma script_progress:
  assumes "counts_nonneg doc"
  shows "progress_ok w (script doc w sy)"
proof -
  let ?p0 = "\<lparr>viewportWidth = w, clientWidth = w, scrollY = sy, elements = doc,
      globalImagesRemaining = 0, totalImagesCount = 0, loaders = [], animations = [],
      resizeListeners = [], timeouts = [], lenisResizes = 0, uncaught = []\<rparr>"
  have "counters_fresh ?p0"
    using assms by (simp add: counters_fresh_def pending_def nimages_def)
  then have "counters_fresh (initSections ?p0)"
    by (rule initSections_fresh)
  then have "progress_ok w (initSections ?p0)"
    by (auto simp: counters_fresh_def progress_ok_def)
  moreover have "script doc w sy = initSections ?p0"
    by (simp add: script_def Let_def)
  ultimately show ?thesis by simp
qed

lemma step_pending_mono:
  assumes ok: "progress_ok w p" and side: "same_side w e"
  shows "pending (step e p) \<le> pending p"
proof -
  have "globalImagesRemaining (step e p) \<le> globalImagesRemaining p"
  proof (cases e)
    case (ImageLoad lid i iw ih)
    then show ?thesis by simp
  next
    case (ImageError lid i)
    then show ?thesis by simp
  next
    case (AnimationUpdate n t)
    then show ?thesis by (simp add: Let_def)
  next
    case (WindowScroll y)
    then show ?thesis by simp
  next
    case (ParentResize k pw ph)
    then show ?thesis by simp
  next
    case (WindowResize nw)
    with side have s: "(768 \<le> nw) = (768 \<le> w)" by simp
    from ok have c: "(768 \<le> clientWidth p) = (768 \<le> w)"
      by (simp add: progress_ok_def)
    from s c show ?thesis
      by (auto simp: WindowResize Let_def)
  next
    case TimeoutFires
    then show ?thesis by (simp split: list.splits)
  qed
  moreover have "progress_ok w (step e p)"
    using ok side by (rule step_progress)
  ultimately show ?thesis
    using ok by (simp add: progress_ok_def)
qed

lemma run_pending_mono:
  "progress_ok w p \<Longrightarrow> list_all (same_side w) evs \<Longrightarrow> pending (run evs p) \<le> pending p"
proof (induction evs arbitrary: p)
  case Nil
  then show ?case by (simp add: run_def)
next
  case (Cons e evs)
  then have "pending (run evs (step e p)) \<le> pending (step e p)"
    by (simp add: step_progress)
  moreover have "pending (step e p) \<le> pending p"
    using Cons.prems by (simp add: step_pending_mono)
  ultimately show ?case by (simp add: run_def)
qed

lemma run_append: "run (evs @ evs') p = run evs' (run evs p)"
  by (simp add: run_def)

text \<open>
  Claim C6 as stated fails when \<open>initSections\<close> runs a second time: a page with one frame
  is loaded at width 1024 and its image loads, so the remaining counter is 0 and one timer
  is scheduled; the window shrinks to 500, the second media query starts to match,
  \<open>initSections\<close> runs again and the counter is 1 again; the new image loads, the counter is
  0 for the second time and a second timer is scheduled; \<open>lenis.resize\<close> is called twice.
\<close>

theorem counter_returns_to_zero_twice:
  "globalImagesRemaining (run [ImageLoad 0 0 400 300] (script [demo_section 1 []] 1024 0)) = 0
   \<and> globalImagesRemaining (run [ImageLoad 0 0 400 300, WindowResize 500]
        (script [demo_section 1 []] 1024 0)) = 1
   \<and> globalImagesRemaining (run [ImageLoad 0 0 400 300, WindowResize 500, ImageLoad 1 0 400 300]
        (script [demo_section 1 []] 1024 0)) = 0
   \<and> lenisResizes (run [ImageLoad 0 0 400 300, WindowResize 500, ImageLoad 1 0 400 300,
                        TimeoutFires, TimeoutFires]
        (script [demo_section 1 []] 1024 0)) = 2"
  by (simp add: exec_defs)

text \<open>
  Claim C6, amended. Take a document whose frame counts are not negative and an execution
  in which the document stays on its side of the 768 pixel boundary, so that the sections
  are initialised once. Then at every moment the remaining counter is the number of images
  that have not settled yet; that number never goes up again, so the counter is 0 from the
  last completion on; and the number of resize notifications scheduled so far (timers
  pending plus timers fired) is 1 if the page has images and all of them have settled, and 0
  before that. Every timer has a delay of 500 ms.
\<close>

theorem counter_reaches_zero_once:
  assumes "counts_nonneg doc" and "list_all (same_side w) evs"
  shows "globalImagesRemaining (run evs (script doc w sy)) = int (pending (run evs (script doc w sy)))
    \<and> length (timeouts (run evs (script doc w sy))) + lenisResizes (run evs (script doc w sy)) =
        (if pending (run evs (script doc w sy)) = 0 \<and> 0 < nimages (run evs (script doc w sy))
         then 1 else 0)
    \<and> list_all (\<lambda>t. t = 500) (timeouts (run evs (script doc w sy)))
    \<and> (\<forall>evs'. list_all (same_side w) evs' \<longrightarrow>
          pending (run (evs @ evs') (script doc w sy)) \<le> pending (run evs (script doc w sy)))"
proof -
  have ok: "progress_ok w (run evs (script doc w sy))"
    using assms by (simp add: run_progress script_progress)
  then show ?thesis
    by (simp add: progress_ok_def run_append run_pending_mono)
qed

lemma pending_status: "pending_imgs imgs = length (filter (\<lambda>s. s = Pending) (map status imgs))"
  by (induction imgs) (simp_all add: pending_imgs_def)

theorem counter_reaches_zero_once_witness:
  "globalImagesRemaining (run [ImageLoad 0 0 400 300, WindowResize 900, ImageError 0 1, TimeoutFires]
      (script [demo_section 2 []] 1024 0)) = 0
   \<and> length (timeouts (run [ImageLoad 0 0 400 300, WindowResize 900, ImageError 0 1, TimeoutFires]
      (script [demo_section 2 []] 1024 0)))
     + lenisResizes (run [ImageLoad 0 0 400 300, WindowResize 900, ImageError 0 1, TimeoutFires]
      (script [demo_section 2 []] 1024 0)) = 1"
proof -
  let ?evs = "[ImageLoad 0 0 400 300, WindowResize 900, ImageError 0 1, TimeoutFires]"
  let ?p = "run ?evs (script [demo_section 2 []] 1024 0)"
  have doc: "counts_nonneg [demo_section 2 []]"
    by (simp add: counts_nonneg_def demo_section_def)
  have evs: "list_all (same_side 1024) ?evs"
    by simp
  have "map (\<lambda>l. map status (images l)) (loaders ?p) = [[Loaded 400 300, Broken]]"
    by (simp add: exec_defs upt_rec)
  from map_singleton [OF this]
  have l: "loaders ?p = [hd (loaders ?p)]"
    and st: "map status (images (hd (loaders ?p))) = [Loaded 400 300, Broken]"
    by simp_all
  have "pending_imgs (images (hd (loaders ?p))) = 0"
    unfolding pending_status st by simp
  moreover have "length (images (hd (loaders ?p))) = 2"
    using arg_cong [OF st, of length] by simp
  ultimately have "pending ?p = 0" and "nimages ?p = 2"
    unfolding pending_def nimages_def by (subst l, simp)+
  with counter_reaches_zero_once [OF doc evs, of 0] show ?thesis
    by simp
qed

subsection \<open>Sections that are skipped\<close>

text \<open>
  Claim C8. When the prefix, the suffix or the frame count of a section is missing, or the
  section has no canvas, \<open>initSections\<close> leaves the page as it is for that section: no
  closure and no image is created, the two global counters keep their values, and nothing
  is thrown or reported.
\<close>

theorem incomplete_section_skipped:
  assumes "data_prefix (elements p ! k) = None \<or> data_suffix (elements p ! k) = None \<or>
           data_framecount (elements p ! k) = None \<or> canvasElement (elements p ! k) = None"
  shows "initSection k p = p"
  using assms by (auto simp: initSection_def Let_def split: option.splits)

theorem incomplete_section_skipped_witness:
  "script [(demo_section 3 [])\<lparr>data_suffix := None\<rparr>] 1024 0 =
     \<lparr>viewportWidth = 1024, clientWidth = 1024, scrollY = 0,
      elements = [(demo_section 3 [])\<lparr>data_suffix := None\<rparr>],
      globalImagesRemaining = 0, totalImagesCount = 0, loaders = [], animations = [],
      resizeListeners = [], timeouts = [], lenisResizes = 0, uncaught = []\<rparr>"
  using incomplete_section_skipped [of
     "\<lparr>viewportWidth = 1024, clientWidth = 1024, scrollY = 0,
      elements = [(demo_section 3 [])\<lparr>data_suffix := None\<rparr>],
      globalImagesRemaining = 0, totalImagesCount = 0, loaders = [], animations = [],
      resizeListeners = [], timeouts = [], lenisResizes = 0, uncaught = []\<rparr>" 0]
  by (simp add: script_def initSections_def demo_section_def)

subsection \<open>Binding a playback block\<close>

lemma tween_between:
  fixes a b :: int and c :: rat
  assumes "0 \<le> c" and "c \<le> 1"
  shows "min a b \<le> round (of_int a + (of_int b - of_int a) * c)"
    and "round (of_int a + (of_int b - of_int a) * c) \<le> max a b"
proof -
  let ?x = "of_int a + (of_int b - of_int a) * c :: rat"
  have "?x = of_int a * (1 - c) + of_int b * c"
    by (simp add: algebra_simps)
  moreover have "of_int (min a b) * (1 - c) \<le> (of_int a :: rat) * (1 - c)"
    "of_int (min a b) * c \<le> (of_int b :: rat) * c"
    "(of_int a :: rat) * (1 - c) \<le> of_int (max a b) * (1 - c)"
    "(of_int b :: rat) * c \<le> of_int (max a b) * c"
    using assms by (simp_all add: mult_right_mono)
  ultimately have lo: "of_int (min a b) \<le> ?x" and hi: "?x \<le> of_int (max a b)"
    by (simp_all add: algebra_simps)
  from round_mono [OF lo] show "min a b \<le> round ?x"
    by (simp only: round_of_int)
  from round_mono [OF hi] show "round ?x \<le> max a b"
    by (simp only: round_of_int)
qed

lemma tween_frame_between:
  "min (from_frame a) (to_frame a) \<le> tween_frame a t \<and>
   tween_frame a t \<le> max (from_frame a) (to_frame a)"
  unfolding tween_frame_def
  by (intro conjI tween_between) simp_all

lemma tween_frame_ends: "tween_frame a 0 = from_frame a" "tween_frame a 1 = to_frame a"
  by (simp_all add: tween_frame_def)

text \<open>
  Claim C5. For a block with the autoplay attribute: when the scroll offset is at most 1
  as the block is bound, the script creates one tween of the block's sequence object from
  frame 0 to \<open>end - 1\<close>, lasting \<open>(end - start) / 30\<close> seconds, with ease "none", snap
  "frame" and the configured delay (0 when there is none), whose value at progress \<open>t\<close> is
  the rounded \<open>(end - 1) * t\<close>, and every update of it renders the frame it has just
  written. Otherwise no tween is created: the frame is set to \<open>end - 1\<close> and rendered once.
\<close>

theorem autoplay_binding:
  assumes "data_autoplaySequence b"
  shows "(scrollY p \<le> 1 \<longrightarrow>
            (\<exists>a. bindBlock lid b p = (p\<lparr>animations := animations p @ [a]\<rparr>, None) \<and>
                 a = \<lparr>target_loader = lid, blockSequence = \<lparr>frame = 0\<rparr>, from_frame = 0,
                      to_frame = data_end b - 1,
                      duration = of_int (data_end b - data_start b) / 30,
                      ease = ''none'', snap = ''frame'',
                      delay = (case data_autoplayDelay b of Some d \<Rightarrow> d | None \<Rightarrow> 0),
                      scrollTrigger = None\<rparr> \<and>
                 (\<forall>t. tween_frame a t = round (of_int (data_end b - 1) * max 0 (min 1 t))) \<and>
                 (\<forall>q n t. n < length (animations q) \<and> animations q ! n = a \<longrightarrow>
                    step (AnimationUpdate n t) q =
                    handled (render_page lid \<lparr>frame = tween_frame a t\<rparr>
                      (q\<lparr>animations := (animations q)
                           [n := a\<lparr>blockSequence := \<lparr>frame = tween_frame a t\<rparr>\<rparr>]\<rparr>)))))
       \<and> (\<not> scrollY p \<le> 1 \<longrightarrow>
            bindBlock lid b p = render_page lid \<lparr>frame = data_end b - 1\<rparr> p \<and>
            animations (fst (bindBlock lid b p)) = animations p)"
  using assms by (simp add: bindBlock_def Let_def tween_frame_def)

lemma script_fields [simp]:
  "scrollY (script doc w sy) = sy"
  "animations (script doc w sy) = []"
  "viewportWidth (script doc w sy) = w"
  "clientWidth (script doc w sy) = w"
  by (simp_all add: script_def Let_def)

theorem autoplay_binding_witness:
  "bindBlock 0 \<lparr>data_start = 10, data_end = 40, data_autoplaySequence = True,
                data_autoplayDelay = Some (1 / 2), data_startPos = None, data_endPos = None\<rparr>
     (script [demo_section 40 []] 1024 0) =
   ((script [demo_section 40 []] 1024 0)\<lparr>animations :=
       [\<lparr>target_loader = 0, blockSequence = \<lparr>frame = 0\<rparr>, from_frame = 0, to_frame = 39,
         duration = 1, ease = ''none'', snap = ''frame'', delay = 1 / 2,
         scrollTrigger = None\<rparr>]\<rparr>, None)
   \<and> bindBlock 0 \<lparr>data_start = 10, data_end = 40, data_autoplaySequence = True,
                data_autoplayDelay = Some (1 / 2), data_startPos = None, data_endPos = None\<rparr>
     (script [demo_section 40 []] 1024 50) =
     render_page 0 \<lparr>frame = 39\<rparr> (script [demo_section 40 []] 1024 50)"
proof -
  let ?b = "\<lparr>data_start = 10, data_end = 40, data_autoplaySequence = True,
                data_autoplayDelay = Some (1 / 2), data_startPos = None, data_endPos = None\<rparr>"
  from autoplay_binding [of ?b "script [demo_section 40 []] 1024 0" 0]
  have "bindBlock 0 ?b (script [demo_section 40 []] 1024 0) =
   ((script [demo_section 40 []] 1024 0)\<lparr>animations :=
       [\<lparr>target_loader = 0, blockSequence = \<lparr>frame = 0\<rparr>, from_frame = 0, to_frame = 39,
         duration = 1, ease = ''none'', snap = ''frame'', delay = 1 / 2,
         scrollTrigger = None\<rparr>]\<rparr>, None)"
    by simp
  moreover from autoplay_binding [of ?b "script [demo_section 40 []] 1024 50" 0]
  have "bindBlock 0 ?b (script [demo_section 40 []] 1024 50) =
     render_page 0 \<lparr>frame = 39\<rparr> (script [demo_section 40 []] 1024 50)"
    by simp
  ultimately show ?thesis by simp
qed

text \<open>
  Claim C3 as stated fails: snapping rounds the frame to an integer and does not clamp it
  to the image array. For a section of two frames with a scroll-linked block from start 0
  to end 2, the tween's initial value of the frame field is -1. With a block from start 1
  to end 3 the update at progress 1 sets the frame to 2, one past the last image.
\<close>

theorem frame_outside_array:
  "map (\<lambda>a. frame (blockSequence a))
     (animations (run [ImageLoad 0 0 400 300, ImageLoad 0 1 400 300]
        (script [demo_section 2 [\<lparr>data_start = 0, data_end = 2, data_autoplaySequence = False,
           data_autoplayDelay = None, data_startPos = None, data_endPos = None\<rparr>]] 1024 0))) = [- 1]
   \<and> map (\<lambda>a. frame (blockSequence a))
     (animations (run [ImageLoad 0 0 400 300, ImageLoad 0 1 400 300, AnimationUpdate 0 1]
        (script [demo_section 2 [\<lparr>data_start = 1, data_end = 3, data_autoplaySequence = False,
           data_autoplayDelay = None, data_startPos = None, data_endPos = None\<rparr>]] 1024 0))) = [2]"
  by (simp add: exec_defs upt_rec tween_frame_def)

subsection \<open>Frames stay inside the image array\<close>

lemma map_update_same: "f y = f (xs ! k) \<Longrightarrow> map f (xs[k := y]) = map f xs"
proof (cases "k < length xs")
  case True
  assume "f y = f (xs ! k)"
  with True have "(map f xs)[k := f y] = map f xs"
    by (simp add: list_update_same_conv)
  then show ?thesis by (simp add: map_update)
next
  case False
  then show ?thesis by (simp add: list_update_beyond)
qed

lemma static_updates [simp]:
  "static (s\<lparr>canvasElement := c\<rparr>) = static s"
  "static (s\<lparr>parentClientWidth := pw, parentClientHeight := ph\<rparr>) = static s"
  by (simp_all add: static_def)

lemma closure_key_updates [simp]:
  "closure_key (l\<lparr>readyCalls := r\<rparr>) = closure_key l"
  "closure_key (l\<lparr>imagesLoaded := n\<rparr>) = closure_key l"
  "closure_key (l\<lparr>images := imgs\<rparr>) = closure_key l"
  by (simp_all add: closure_key_def)

lemma render_page_static [simp]:
  "map static (elements (fst (render_page lid sq p))) = map static (elements p)"
  by (simp add: render_page_def Let_def case_prod_beta map_update_same split: option.splits)

lemma frames_ok_cong:
  assumes "frames_ok doc p" and "map static (elements p') = map static (elements p)"
    and "map closure_key (loaders p') = map closure_key (loaders p)"
    and "animations p' = animations p"
  shows "frames_ok doc p'"
  using assms by (simp add: frames_ok_def)

lemma frames_ok_render_page: "frames_ok doc p \<Longrightarrow> frames_ok doc (fst (render_page lid sq p))"
  by (erule frames_ok_cong) simp_all

text \<open>The section of a closure, on the page and in the document.\<close>

lemma closure_section:
  assumes "frames_ok doc p" and "lid < length (loaders p)"
  shows "l_section (loaders p ! lid) < length doc"
    and "data_framecount (doc ! l_section (loaders p ! lid)) = Some (frameCount (loaders p ! lid))"
    and "snd (map static doc ! fst (map closure_key (loaders p) ! lid)) =
         blocks (doc ! l_section (loaders p ! lid))"
    and "static (elements p ! l_section (loaders p ! lid)) = static (doc ! l_section (loaders p ! lid))"
proof -
  let ?l = "loaders p ! lid"
  let ?S = "map static doc"
  from assms(1) have el: "map static (elements p) = ?S"
    and K: "list_all (\<lambda>k. fst k < length ?S \<and> fst (?S ! fst k) = Some (snd k))
              (map closure_key (loaders p))"
    by (simp_all add: frames_ok_def frames_inv_def)
  from K assms(2) have "fst (closure_key ?l) < length ?S \<and>
      fst (?S ! fst (closure_key ?l)) = Some (snd (closure_key ?l))"
    unfolding list_all_length by (metis length_map nth_map)
  then show k: "l_section ?l < length doc"
    and "data_framecount (doc ! l_section ?l) = Some (frameCount ?l)"
    by (auto simp: closure_key_def static_def)
  from k assms(2) show "snd (?S ! fst (map closure_key (loaders p) ! lid)) = blocks (doc ! l_section ?l)"
    by (simp add: closure_key_def static_def)
  from k have "length (elements p) = length doc"
    using arg_cong [OF el, of length] by simp
  with k have "map static (elements p) ! l_section ?l = static (elements p ! l_section ?l)"
    by simp
  with el k show "static (elements p ! l_section ?l) = static (doc ! l_section ?l)"
    by simp
qed

lemma frames_ok_add_animation:
  assumes "frames_ok doc p" and "lid < length (loaders p)" and "target_loader a = lid"
    and "b \<in> set (blocks (doc ! l_section (loaders p ! lid)))"
    and "animates b a" and "between_ends a"
  shows "frames_ok doc (p\<lparr>animations := animations p @ [a]\<rparr>)"
proof -
  from assms(4,5) have "list_ex (\<lambda>b. animates b a) (blocks (doc ! l_section (loaders p ! lid)))"
    unfolding list_ex_iff by blast
  with closure_section(3) [OF assms(1,2)] assms(1,2,3,6) show ?thesis
    by (simp add: frames_ok_def frames_inv_def)
qed

lemma bindBlock_frames_ok:
  assumes "frames_ok doc p" and "lid < length (loaders p)"
    and "b \<in> set (blocks (doc ! l_section (loaders p ! lid)))"
  shows "frames_ok doc (fst (bindBlock lid b p))"
proof (cases "data_autoplaySequence b")
  case True
  show ?thesis
  proof (cases "scrollY p \<le> 1")
    case False
    with True have "bindBlock lid b p = render_page lid \<lparr>frame = data_end b - 1\<rparr> p"
      by (simp add: bindBlock_def Let_def)
    with assms(1) show ?thesis by (simp add: frames_ok_render_page)
  next
    case at_top: True
    let ?a = "\<lparr>target_loader = lid, blockSequence = \<lparr>frame = 0\<rparr>, from_frame = 0,
        to_frame = data_end b - 1, duration = of_int (data_end b - data_start b) / 30,
        ease = ''none'', snap = ''frame'',
        delay = (case data_autoplayDelay b of Some d \<Rightarrow> d | None \<Rightarrow> 0),
        scrollTrigger = None\<rparr>"
    have eq: "fst (bindBlock lid b p) = p\<lparr>animations := animations p @ [?a]\<rparr>"
      using True at_top by (simp add: bindBlock_def Let_def)
    have "animates b ?a" and "between_ends ?a"
      using True by (simp_all add: animates_def between_ends_def)
    with assms show ?thesis
      unfolding eq by (intro frames_ok_add_animation [where b = b]) simp_all
  qed
next
  case False
  let ?a = "\<lparr>target_loader = lid, blockSequence = \<lparr>frame = data_start b - 1\<rparr>,
      from_frame = data_start b - 1, to_frame = data_end b - 1, duration = 1,
      ease = ''none'', snap = ''frame'', delay = 0,
      scrollTrigger =
        Some (case data_startPos b of Some s \<Rightarrow> s | None \<Rightarrow> ''top top'',
              case data_endPos b of Some s \<Rightarrow> s | None \<Rightarrow> ''bottom bottom'')\<rparr>"
  have eq: "fst (bindBlock lid b p) = p\<lparr>animations := animations p @ [?a]\<rparr>"
    using False by (simp add: bindBlock_def Let_def)
  have "animates b ?a" and "between_ends ?a"
    using False by (simp_all add: animates_def between_ends_def)
  with assms show ?thesis
    unfolding eq by (intro frames_ok_add_animation [where b = b]) simp_all
qed

lemma bindBlocks_frames_ok:
  assumes "frames_ok doc p" and "lid < length (loaders p)"
    and "set bs \<subseteq> set (blocks (doc ! l_section (loaders p ! lid)))"
  shows "frames_ok doc (fst (bindBlocks lid bs p))"
  using assms
proof (induction bs arbitrary: p)
  case Nil
  then show ?case by simp
next
  case (Cons b bs)
  let ?q = "fst (bindBlock lid b p)"
  have q: "frames_ok doc ?q"
    using Cons.prems by (simp add: bindBlock_frames_ok)
  have "frames_ok doc (fst (bindBlocks lid bs ?q))"
    using q Cons.prems by (intro Cons.IH) simp_all
  with q show ?case
    by (cases "bindBlock lid b p") (auto split: option.splits)
qed

lemma initCanvasAnimations_frames_ok:
  assumes "frames_ok doc p" and "lid < length (loaders p)"
  shows "frames_ok doc (fst (initCanvasAnimations lid p))"
proof -
  let ?l = "loaders p ! lid"
  let ?p0 = "p\<lparr>loaders := (loaders p)[lid := ?l\<lparr>readyCalls := readyCalls ?l + 1\<rparr>]\<rparr>"
  let ?r1 = "bindBlocks lid (blocks (elements ?p0 ! l_section ?l)) ?p0"
  let ?r2 = "render_page lid \<lparr>frame = 0\<rparr> (fst ?r1)"
  have p0: "frames_ok doc ?p0"
    using assms(1) by (rule frames_ok_cong) (simp_all add: map_update_same)
  have "blocks (elements ?p0 ! l_section ?l) = blocks (doc ! l_section ?l)"
    using closure_section(4) [OF assms] by (simp add: static_def)
  then have "set (blocks (elements ?p0 ! l_section ?l)) \<subseteq>
      set (blocks (doc ! l_section (loaders ?p0 ! lid)))"
    using assms(2) by simp
  with p0 assms(2) have r1: "frames_ok doc (fst ?r1)"
    by (intro bindBlocks_frames_ok) simp_all
  then have r2: "frames_ok doc (fst ?r2)"
    by (rule frames_ok_render_page)
  then have "frames_ok doc ((fst ?r2)\<lparr>resizeListeners := resizeListeners (fst ?r2) @ [lid]\<rparr>)"
    by (rule frames_ok_cong) simp_all
  with r1 r2 show ?thesis
    by (simp add: initCanvasAnimations_alt Let_def del: render_page_fields)
qed

lemma whenAllLoaded_frames_ok:
  "frames_ok doc p \<Longrightarrow> lid < length (loaders p) \<Longrightarrow> frames_ok doc (fst (whenAllLoaded lid p))"
  by (simp add: whenAllLoaded_def initCanvasAnimations_frames_ok)

lemma set_status_frames_ok: "frames_ok doc p \<Longrightarrow> frames_ok doc (set_status lid i st p)"
  by (erule frames_ok_cong) (simp_all add: map_update_same)

lemma countLoaded_frames_ok: "frames_ok doc p \<Longrightarrow> frames_ok doc (countLoaded lid p)"
  by (erule frames_ok_cong) (simp_all add: map_update_same)

lemma updateGlobalImageCount_frames_ok: "frames_ok doc p \<Longrightarrow> frames_ok doc (updateGlobalImageCount p)"
  by (erule frames_ok_cong) simp_all

lemma counted_frames_ok:
  "frames_ok doc p \<Longrightarrow> frames_ok doc (updateGlobalImageCount (countLoaded lid (set_status lid i st p)))"
  by (intro updateGlobalImageCount_frames_ok countLoaded_frames_ok set_status_frames_ok)

lemma onerror_frames_ok:
  "frames_ok doc p \<Longrightarrow> lid < length (loaders p) \<Longrightarrow>
   frames_ok doc (fst (onerror lid i (set_status lid i st p)))"
  unfolding onerror_def
  by (intro whenAllLoaded_frames_ok counted_frames_ok) simp_all

lemma onload_frames_ok:
  assumes "frames_ok doc p" and "lid < length (loaders p)"
  shows "frames_ok doc (fst (onload lid i (set_status lid i st p)))"
proof -
  let ?p1 = "updateGlobalImageCount (countLoaded lid (set_status lid i st p))"
  let ?r = "if i = 0 then render_page lid \<lparr>frame = 0\<rparr> ?p1 else (?p1, None)"
  have p1: "frames_ok doc ?p1"
    using assms(1) by (rule counted_frames_ok)
  then have r: "frames_ok doc (fst ?r)"
    by (auto simp: frames_ok_render_page)
  have "lid < length (loaders (fst ?r))"
    using assms(2) by simp
  with r have "frames_ok doc (fst (whenAllLoaded lid (fst ?r)))"
    by (rule whenAllLoaded_frames_ok)
  with r show ?thesis
    by (simp add: onload_alt Let_def del: render_page_fields)
qed

lemma handled_frames_ok: "frames_ok doc (fst r) \<Longrightarrow> frames_ok doc (handled r)"
  by (erule frames_ok_cong) simp_all

lemma resizeListener_frames_ok: "frames_ok doc p \<Longrightarrow> frames_ok doc (fst (resizeListener lid p))"
proof (cases "canvasElement (elements p ! l_section (loaders p ! lid))")
  case None
  assume "frames_ok doc p"
  with None show ?thesis by (simp add: resizeListener_def Let_def)
next
  case (Some c)
  assume ok: "frames_ok doc p"
  let ?k = "l_section (loaders p ! lid)"
  let ?q = "p\<lparr>elements := (elements p)[?k := (elements p ! ?k)\<lparr>canvasElement :=
      Some (c\<lparr>width := parentClientWidth (elements p ! ?k),
              height := parentClientHeight (elements p ! ?k), layers := []\<rparr>)\<rparr>]\<rparr>"
  have "frames_ok doc ?q"
    using ok by (rule frames_ok_cong) (simp_all add: map_update_same)
  then have "frames_ok doc (fst (render_page lid \<lparr>frame = 0\<rparr> ?q))"
    by (rule frames_ok_render_page)
  with Some show ?thesis by (simp add: resizeListener_def Let_def)
qed

lemma resizeListeners_frames_ok:
  "frames_ok doc p \<Longrightarrow> frames_ok doc (foldl (\<lambda>q lid. handled (resizeListener lid q)) p lids)"
  by (induction lids arbitrary: p)
     (simp_all add: handled_frames_ok resizeListener_frames_ok)

lemma initCanvas_frames_ok:
  assumes "frames_ok doc p" and "k < length (elements p)"
    and "data_framecount (elements p ! k) = Some N"
  shows "frames_ok doc (initCanvas k c P S N D p)"
proof -
  have el: "map static (elements (initCanvas k c P S N D p)) = map static (elements p)"
    by (simp add: initCanvas_def Let_def map_update_same)
  from assms(1) have eq: "map static (elements p) = map static doc"
    by (simp add: frames_ok_def)
  have len: "length (elements p) = length doc"
    using arg_cong [OF eq, of length] by simp
  have "fst (map static (elements p) ! k) = Some N"
    using assms(2,3) by (simp add: static_def)
  then have "fst (map static doc ! k) = Some N"
    by (simp only: eq)
  moreover have "k < length (map static doc)"
    using assms(2) len by simp
  ultimately have "fst (map static doc ! k) = Some N \<and> k < length (map static doc)"
    by simp
  with assms(1) show ?thesis
    unfolding frames_ok_def el
    by (auto simp: frames_inv_def list_all_iff closure_key_def nth_append)
qed

lemma initSection_frames_ok:
  assumes "frames_ok doc p" and "k < length (elements p)"
  shows "frames_ok doc (initSection k p)"
  using initSection_cases [of k p]
proof (elim disjE exE conjE)
  assume "initSection k p = p"
  with assms(1) show ?thesis by simp
next
  fix c P S N
  assume fc: "data_framecount (elements p ! k) = Some N"
    and eq: "initSection k p = initCanvas k c P S N (device_of (viewportWidth p))
          (p\<lparr>totalImagesCount := totalImagesCount p + N,
             globalImagesRemaining := globalImagesRemaining p + N\<rparr>)"
  have "frames_ok doc (p\<lparr>totalImagesCount := totalImagesCount p + N,
             globalImagesRemaining := globalImagesRemaining p + N\<rparr>)"
    using assms(1) by (rule frames_ok_cong) simp_all
  then show ?thesis
    unfolding eq using assms(2) fc by (intro initCanvas_frames_ok) simp_all
qed

lemma initSections_frames_ok:
  assumes "frames_ok doc p"
  shows "frames_ok doc (initSections p)"
proof -
  have "frames_ok doc q \<Longrightarrow> \<forall>k \<in> set ks. k < length (elements q) \<Longrightarrow>
      frames_ok doc (foldl (\<lambda>q k. initSection k q) q ks)" for ks q
    by (induction ks arbitrary: q) (simp_all add: initSection_frames_ok)
  from this [OF assms, of "[0..<length (elements p)]"] show ?thesis
    by (simp add: initSections_def)
qed

lemma update_frames_ok:
  assumes "frames_ok doc p" and "n < length (animations p)"
  shows "frames_ok doc (p\<lparr>animations := (animations p)[n := (animations p ! n)
      \<lparr>blockSequence := (blockSequence (animations p ! n))\<lparr>frame := tween_frame (animations p ! n) t\<rparr>\<rparr>]\<rparr>)"
proof -
  let ?a = "animations p ! n"
  let ?a' = "?a\<lparr>blockSequence := (blockSequence ?a)\<lparr>frame := tween_frame ?a t\<rparr>\<rparr>"
  let ?K = "map closure_key (loaders p)"
  let ?ok = "\<lambda>a. target_loader a < length ?K \<and>
      list_ex (\<lambda>b. animates b a) (snd (map static doc ! fst (?K ! target_loader a))) \<and>
      between_ends a"
  from assms(1) have all: "list_all ?ok (animations p)"
    by (simp add: frames_ok_def frames_inv_def)
  with assms(2) have a: "?ok ?a"
    unfolding list_all_length by blast
  have "animates b ?a' = animates b ?a" for b
    by (simp add: animates_def)
  moreover have "between_ends ?a'"
    using tween_frame_between [of ?a t] by (simp add: between_ends_def)
  ultimately have "?ok ?a'"
    using a by auto
  with all have "list_all ?ok ((animations p)[n := ?a'])"
    unfolding list_all_iff using set_update_subset_insert [of "animations p" n] by blast
  with assms(1) show ?thesis
    by (simp add: frames_ok_def frames_inv_def)
qed

lemma step_frames_ok: "frames_ok doc p \<Longrightarrow> frames_ok doc (step e p)"
proof (cases e)
  case (ImageLoad lid i iw ih)
  assume "frames_ok doc p"
  then show ?thesis
    by (simp add: ImageLoad can_settle_def handled_frames_ok onload_frames_ok)
next
  case (ImageError lid i)
  assume "frames_ok doc p"
  then show ?thesis
    by (simp add: ImageError can_settle_def handled_frames_ok onerror_frames_ok)
next
  case (AnimationUpdate n t)
  assume "frames_ok doc p"
  then show ?thesis
    by (simp add: AnimationUpdate Let_def handled_frames_ok frames_ok_render_page update_frames_ok)
next
  case (WindowScroll y)
  assume "frames_ok doc p"
  then show ?thesis
    unfolding WindowScroll by (rule frames_ok_cong) simp_all
next
  case (ParentResize k pw ph)
  assume "frames_ok doc p"
  then show ?thesis
    unfolding ParentResize by (rule frames_ok_cong) (simp_all add: map_update_same)
next
  case (WindowResize nw)
  assume "frames_ok doc p"
  then have "frames_ok doc (p\<lparr>clientWidth := nw\<rparr>)"
    by (rule frames_ok_cong) simp_all
  then have "frames_ok doc (foldl (\<lambda>q lid. handled (resizeListener lid q))
      (p\<lparr>clientWidth := nw\<rparr>) (resizeListeners p))"
    by (rule resizeListeners_frames_ok)
  then show ?thesis
    by (simp add: WindowResize Let_def initSections_frames_ok)
next
  case TimeoutFires
  assume "frames_ok doc p"
  then show ?thesis
    unfolding TimeoutFires by (cases "timeouts p") (auto elim: frames_ok_cong)
qed

lemma run_frames_ok: "frames_ok doc p \<Longrightarrow> frames_ok doc (run evs p)"
  unfolding run_def by (induction evs arbitrary: p) (simp_all add: step_frames_ok)

lemma script_frames_ok: "frames_ok doc (script doc w sy)"
proof -
  have "frames_ok doc \<lparr>viewportWidth = w, clientWidth = w, scrollY = sy, elements = doc,
      globalImagesRemaining = 0, totalImagesCount = 0, loaders = [], animations = [],
      resizeListeners = [], timeouts = [], lenisResizes = 0, uncaught = []\<rparr>"
    by (simp add: frames_ok_def frames_inv_def)
  then show ?thesis
    by (simp add: script_def Let_def initSections_frames_ok)
qed

lemma page_frames_ok: "frames_ok doc (run evs (script doc w sy))"
  by (simp add: run_frames_ok script_frames_ok)

lemma animation_traced:
  assumes "a \<in> set (animations (run evs (script doc w sy)))"
  shows "target_loader a < length (loaders (run evs (script doc w sy)))"
    and "list_ex (\<lambda>b. animates b a)
           (blocks (doc ! l_section (loaders (run evs (script doc w sy)) ! target_loader a)))"
    and "between_ends a"
proof -
  let ?p = "run evs (script doc w sy)"
  let ?K = "map closure_key (loaders ?p)"
  have ok: "frames_ok doc ?p"
    by (rule page_frames_ok)
  then have "list_all (\<lambda>a. target_loader a < length ?K \<and>
      list_ex (\<lambda>b. animates b a) (snd (map static doc ! fst (?K ! target_loader a))) \<and>
      between_ends a) (animations ?p)"
    by (simp add: frames_ok_def frames_inv_def)
  with assms have a: "target_loader a < length ?K \<and>
      list_ex (\<lambda>b. animates b a) (snd (map static doc ! fst (?K ! target_loader a))) \<and>
      between_ends a"
    unfolding list_all_iff by blast
  then show lt: "target_loader a < length (loaders ?p)" and "between_ends a"
    by simp_all
  from a closure_section(3) [OF ok lt]
  show "list_ex (\<lambda>b. animates b a) (blocks (doc ! l_section (loaders ?p ! target_loader a)))"
    by simp
qed

lemma fitting_ends:
  assumes "animates b a" and "block_ok N b"
  shows "0 \<le> from_frame a" and "from_frame a < N" and "0 \<le> to_frame a" and "to_frame a < N"
  using assms by (auto simp: animates_def block_ok_def split: if_splits)

subsection \<open>Animations keep their ends\<close>

lemma grows_refl [simp]: "grows A A"
  by (simp add: grows_def)

lemma grows_trans: "grows A B \<Longrightarrow> grows B C \<Longrightarrow> grows A C"
  unfolding grows_def
proof (intro conjI allI impI)
  assume ab: "length A \<le> length B \<and> (\<forall>n<length A. B ! n = (A ! n)\<lparr>blockSequence := blockSequence (B ! n)\<rparr>)"
    and bc: "length B \<le> length C \<and> (\<forall>n<length B. C ! n = (B ! n)\<lparr>blockSequence := blockSequence (C ! n)\<rparr>)"
  then show "length A \<le> length C" by simp
  fix n
  assume n: "n < length A"
  with ab have 1: "B ! n = (A ! n)\<lparr>blockSequence := blockSequence (B ! n)\<rparr>" by blast
  from n ab bc have 2: "C ! n = (B ! n)\<lparr>blockSequence := blockSequence (C ! n)\<rparr>" by simp
  show "C ! n = (A ! n)\<lparr>blockSequence := blockSequence (C ! n)\<rparr>"
    by (subst 2, subst 1) simp
qed

lemma grows_append [simp]: "grows A (A @ B)"
  by (simp add: grows_def nth_append)

lemma grows_update:
  "grows A (A[n := (A ! n)\<lparr>blockSequence := s\<rparr>])"
proof (cases "n < length A")
  case True
  show ?thesis
    unfolding grows_def
  proof (intro conjI allI impI)
    show "length A \<le> length (A[n := (A ! n)\<lparr>blockSequence := s\<rparr>])" by simp
    fix m
    assume "m < length A"
    then show "A[n := (A ! n)\<lparr>blockSequence := s\<rparr>] ! m =
        (A ! m)\<lparr>blockSequence := blockSequence (A[n := (A ! n)\<lparr>blockSequence := s\<rparr>] ! m)\<rparr>"
      by (cases "m = n") simp_all
  qed
next
  case False
  then show ?thesis by (simp add: list_update_beyond)
qed

lemma bindBlock_grows: "grows (animations p) (animations (fst (bindBlock lid b p)))"
  by (simp add: bindBlock_def Let_def)

lemma bindBlocks_grows: "grows (animations p) (animations (fst (bindBlocks lid bs p)))"
proof (induction bs arbitrary: p)
  case Nil
  show ?case by simp
next
  case (Cons b bs)
  have "grows (animations p) (animations (fst (bindBlocks lid bs (fst (bindBlock lid b p)))))"
    using bindBlock_grows Cons.IH by (rule grows_trans)
  then show ?case
    using bindBlock_grows [of p lid b]
    by (cases "bindBlock lid b p") (auto split: option.splits)
qed

lemma initCanvasAnimations_grows:
  "grows (animations p) (animations (fst (initCanvasAnimations lid p)))"
proof -
  let ?p0 = "p\<lparr>loaders := (loaders p)[lid := (loaders p ! lid)
      \<lparr>readyCalls := readyCalls (loaders p ! lid) + 1\<rparr>]\<rparr>"
  have "grows (animations ?p0)
      (animations (fst (bindBlocks lid (blocks (elements ?p0 ! l_section (loaders p ! lid))) ?p0)))"
    by (rule bindBlocks_grows)
  then show ?thesis
    by (simp add: initCanvasAnimations_alt Let_def)
qed

lemma whenAllLoaded_grows: "grows (animations p) (animations (fst (whenAllLoaded lid p)))"
  by (simp add: whenAllLoaded_def initCanvasAnimations_grows)

lemma onerror_grows: "grows (animations p) (animations (fst (onerror lid i (set_status lid i st p))))"
  using whenAllLoaded_grows [of "updateGlobalImageCount (countLoaded lid (set_status lid i st p))" lid]
  by (simp add: onerror_def)

lemma onload_grows: "grows (animations p) (animations (fst (onload lid i (set_status lid i st p))))"
proof -
  let ?p1 = "updateGlobalImageCount (countLoaded lid (set_status lid i st p))"
  let ?r = "if i = 0 then render_page lid \<lparr>frame = 0\<rparr> ?p1 else (?p1, None)"
  have r: "animations (fst ?r) = animations p"
    by simp
  have "grows (animations (fst ?r)) (animations (fst (whenAllLoaded lid (fst ?r))))"
    by (rule whenAllLoaded_grows)
  with r show ?thesis
    by (simp add: onload_alt Let_def del: render_page_fields)
qed

lemma resizeListener_animations [simp]:
  "animations (fst (resizeListener lid p)) = animations p"
  by (simp add: resizeListener_def Let_def split: option.splits)

lemma resize_fold_animations [simp]:
  "animations (foldl (\<lambda>q lid. handled (resizeListener lid q)) p lids) = animations p"
  by (induction lids arbitrary: p) simp_all

lemma step_grows: "grows (animations p) (animations (step e p))"
proof (cases e)
  case (ImageLoad lid i iw ih)
  then show ?thesis by (simp add: onload_grows)
next
  case (ImageError lid i)
  then show ?thesis by (simp add: onerror_grows)
next
  case (AnimationUpdate n t)
  then show ?thesis by (simp add: Let_def grows_update)
next
  case (WindowScroll y)
  then show ?thesis by simp
next
  case (ParentResize k pw ph)
  then show ?thesis by simp
next
  case (WindowResize nw)
  then show ?thesis by (simp add: Let_def)
next
  case TimeoutFires
  then show ?thesis by (simp split: list.splits)
qed

lemma run_grows: "grows (animations p) (animations (run evs p))"
proof (induction evs arbitrary: p)
  case Nil
  show ?case by (simp add: run_def)
next
  case (Cons e evs)
  have "grows (animations p) (animations (run evs (step e p)))"
    using step_grows Cons.IH by (rule grows_trans)
  then show ?case by (simp add: run_def)
qed

text \<open>
  Claim C3, amended. \<open>bindBlock\<close> turns a block that it does not render at once into
  one animation of that block, whose frame is the value the tween starts from. On every
  page of every document and after every sequence of events, every animation renders
  from a closure of a section of the document that has the closure's frame count \<open>N\<close>,
  and it is an animation of a block of that section. If a block that it is an animation
  of fits \<open>N\<close>, that is, if the end attribute lies between 1 and \<open>N\<close> and for a
  scroll-linked block the start attribute too, then the closure holds \<open>N\<close> images and
  the frame field is an integer between 0 and \<open>N - 1\<close>, as it stands on the page and at
  whatever progress the engine moves the tween to. No other block of the document
  matters for this. Later events keep every animation at its place in the list and
  change nothing of it but its sequence object, so it stays an animation of the same
  blocks on the same closure. An autoplay block bound away from the top renders \<open>end - 1\<close> at
  once: when it fits the frame count of a closure that holds that many images, this frame
  is inside the closure's image array and nothing is thrown.
\<close>

theorem frame_within_array:
  "(\<forall>b lid q. \<not> (data_autoplaySequence b \<and> \<not> scrollY q \<le> 1) \<longrightarrow>
      (\<exists>a. bindBlock lid b q = (q\<lparr>animations := animations q @ [a]\<rparr>, None) \<and>
           target_loader a = lid \<and> animates b a \<and> frame (blockSequence a) = from_frame a))
   \<and> (\<forall>a \<in> set (animations (run evs (script doc w sy))).
        target_loader a < length (loaders (run evs (script doc w sy))) \<and>
        (let l = loaders (run evs (script doc w sy)) ! target_loader a
         in l_section l < length doc \<and>
            data_framecount (doc ! l_section l) = Some (frameCount l) \<and>
            (\<exists>b \<in> set (blocks (doc ! l_section l)). animates b a) \<and>
            (\<forall>b. animates b a \<and> block_ok (frameCount l) b \<longrightarrow>
                 int (length (images l)) = frameCount l \<and>
                 0 \<le> frame (blockSequence a) \<and> frame (blockSequence a) < frameCount l \<and>
                 (\<forall>t. 0 \<le> tween_frame a t \<and> tween_frame a t < frameCount l))))
   \<and> (\<forall>evs'. grows (animations (run evs (script doc w sy)))
                      (animations (run (evs @ evs') (script doc w sy))))
   \<and> (\<forall>b lid q. block_ok (frameCount (loaders q ! lid)) b \<and>
          int (length (images (loaders q ! lid))) = frameCount (loaders q ! lid) \<and>
          data_autoplaySequence b \<and> \<not> scrollY q \<le> 1 \<longrightarrow>
          bindBlock lid b q = render_page lid \<lparr>frame = data_end b - 1\<rparr> q \<and>
          image_at (images (loaders q ! lid)) (data_end b - 1) \<noteq> None \<and>
          snd (bindBlock lid b q) = None)"
proof (intro conjI)
  show "\<forall>b lid q. \<not> (data_autoplaySequence b \<and> \<not> scrollY q \<le> 1) \<longrightarrow>
      (\<exists>a. bindBlock lid b q = (q\<lparr>animations := animations q @ [a]\<rparr>, None) \<and>
           target_loader a = lid \<and> animates b a \<and> frame (blockSequence a) = from_frame a)"
    by (auto simp: bindBlock_def Let_def animates_def)
next
  show "\<forall>a \<in> set (animations (run evs (script doc w sy))).
        target_loader a < length (loaders (run evs (script doc w sy))) \<and>
        (let l = loaders (run evs (script doc w sy)) ! target_loader a
         in l_section l < length doc \<and>
            data_framecount (doc ! l_section l) = Some (frameCount l) \<and>
            (\<exists>b \<in> set (blocks (doc ! l_section l)). animates b a) \<and>
            (\<forall>b. animates b a \<and> block_ok (frameCount l) b \<longrightarrow>
                 int (length (images l)) = frameCount l \<and>
                 0 \<le> frame (blockSequence a) \<and> frame (blockSequence a) < frameCount l \<and>
                 (\<forall>t. 0 \<le> tween_frame a t \<and> tween_frame a t < frameCount l)))"
  proof
    fix a :: animation
    let ?p = "run evs (script doc w sy)"
    let ?l = "loaders ?p ! target_loader a"
    assume a: "a \<in> set (animations ?p)"
    from animation_traced [OF a]
    have lt: "target_loader a < length (loaders ?p)"
      and ex: "\<exists>b \<in> set (blocks (doc ! l_section ?l)). animates b a"
      and bt: "between_ends a"
      by (simp_all add: list_ex_iff)
    from closure_section(1,2) [OF page_frames_ok lt]
    have sec: "l_section ?l < length doc"
      and fc: "data_framecount (doc ! l_section ?l) = Some (frameCount ?l)"
      by simp_all
    from lt have "?l \<in> set (loaders ?p)"
      by (rule nth_mem)
    then have "closure_state w ?l"
      by (rule page_closures)
    from closure_state_counts [OF this]
    have len: "length (images ?l) = nat (frameCount ?l)"
      by simp
    have fit: "int (length (images ?l)) = frameCount ?l \<and>
        0 \<le> frame (blockSequence a) \<and> frame (blockSequence a) < frameCount ?l \<and>
        (\<forall>t. 0 \<le> tween_frame a t \<and> tween_frame a t < frameCount ?l)"
      if b: "animates b a \<and> block_ok (frameCount ?l) b" for b
    proof (intro conjI allI)
      from b have ends: "0 \<le> from_frame a" "from_frame a < frameCount ?l"
        "0 \<le> to_frame a" "to_frame a < frameCount ?l"
        using fitting_ends [of b a "frameCount ?l"] by simp_all
      then show "int (length (images ?l)) = frameCount ?l"
        using len by simp
      from ends bt show "0 \<le> frame (blockSequence a)" and "frame (blockSequence a) < frameCount ?l"
        unfolding between_ends_def by linarith+
      fix t
      from ends tween_frame_between [of a t]
      show "0 \<le> tween_frame a t" and "tween_frame a t < frameCount ?l"
        by linarith+
    qed
    from lt sec fc ex fit
    show "target_loader a < length (loaders ?p) \<and>
        (let l = ?l
         in l_section l < length doc \<and>
            data_framecount (doc ! l_section l) = Some (frameCount l) \<and>
            (\<exists>b \<in> set (blocks (doc ! l_section l)). animates b a) \<and>
            (\<forall>b. animates b a \<and> block_ok (frameCount l) b \<longrightarrow>
                 int (length (images l)) = frameCount l \<and>
                 0 \<le> frame (blockSequence a) \<and> frame (blockSequence a) < frameCount l \<and>
                 (\<forall>t. 0 \<le> tween_frame a t \<and> tween_frame a t < frameCount l)))"
      unfolding Let_def by blast
  qed
next
  show "\<forall>evs'. grows (animations (run evs (script doc w sy)))
                    (animations (run (evs @ evs') (script doc w sy)))"
    using run_grows [of "run evs (script doc w sy)"] by (simp add: run_def)
next
  show "\<forall>b lid q. block_ok (frameCount (loaders q ! lid)) b \<and>
          int (length (images (loaders q ! lid))) = frameCount (loaders q ! lid) \<and>
          data_autoplaySequence b \<and> \<not> scrollY q \<le> 1 \<longrightarrow>
          bindBlock lid b q = render_page lid \<lparr>frame = data_end b - 1\<rparr> q \<and>
          image_at (images (loaders q ! lid)) (data_end b - 1) \<noteq> None \<and>
          snd (bindBlock lid b q) = None"
  proof (intro allI impI)
    fix b lid and q :: page
    assume h: "block_ok (frameCount (loaders q ! lid)) b \<and>
          int (length (images (loaders q ! lid))) = frameCount (loaders q ! lid) \<and>
          data_autoplaySequence b \<and> \<not> scrollY q \<le> 1"
    then have eq: "bindBlock lid b q = render_page lid \<lparr>frame = data_end b - 1\<rparr> q"
      by (simp add: bindBlock_def Let_def)
    from h have inside: "image_at (images (loaders q ! lid)) (data_end b - 1) \<noteq> None"
      by (simp add: image_at_def block_ok_def)
    then have "snd (render_page lid \<lparr>frame = data_end b - 1\<rparr> q) = None"
      by (simp add: render_page_in_range)
    with eq inside
    show "bindBlock lid b q = render_page lid \<lparr>frame = data_end b - 1\<rparr> q \<and>
          image_at (images (loaders q ! lid)) (data_end b - 1) \<noteq> None \<and>
          snd (bindBlock lid b q) = None"
      by simp
  qed
qed

lemma good_block_beside_bad_block:
  "animations (run [ImageLoad 0 0 400 300, ImageLoad 0 1 400 300, AnimationUpdate 1 (1 / 2)]
     (script [demo_section 2
        [\<lparr>data_start = 0, data_end = 3, data_autoplaySequence = False,
          data_autoplayDelay = None, data_startPos = None, data_endPos = None\<rparr>,
         \<lparr>data_start = 1, data_end = 2, data_autoplaySequence = False,
          data_autoplayDelay = None, data_startPos = None, data_endPos = None\<rparr>]] 1024 0)) =
   [\<lparr>target_loader = 0, blockSequence = \<lparr>frame = - 1\<rparr>, from_frame = - 1, to_frame = 2,
     duration = 1, ease = ''none'', snap = ''frame'', delay = 0,
     scrollTrigger = Some (''top top'', ''bottom bottom'')\<rparr>,
    \<lparr>target_loader = 0, blockSequence = \<lparr>frame = 1\<rparr>, from_frame = 0, to_frame = 1,
     duration = 1, ease = ''none'', snap = ''frame'', delay = 0,
     scrollTrigger = Some (''top top'', ''bottom bottom'')\<rparr>]"
  by (simp add: exec_defs upt_rec tween_frame_def round_def)

theorem frame_within_array_witness:
  "frame (blockSequence (animations
     (run [ImageLoad 0 0 400 300, ImageLoad 0 1 400 300, AnimationUpdate 1 (1 / 2)]
       (script [demo_section 2
        [\<lparr>data_start = 0, data_end = 3, data_autoplaySequence = False,
          data_autoplayDelay = None, data_startPos = None, data_endPos = None\<rparr>,
         \<lparr>data_start = 1, data_end = 2, data_autoplaySequence = False,
          data_autoplayDelay = None, data_startPos = None, data_endPos = None\<rparr>]] 1024 0)) ! 1)) = 1
   \<and> length (images (loaders
     (run [ImageLoad 0 0 400 300, ImageLoad 0 1 400 300, AnimationUpdate 1 (1 / 2)]
       (script [demo_section 2
        [\<lparr>data_start = 0, data_end = 3, data_autoplaySequence = False,
          data_autoplayDelay = None, data_startPos = None, data_endPos = None\<rparr>,
         \<lparr>data_start = 1, data_end = 2, data_autoplaySequence = False,
          data_autoplayDelay = None, data_startPos = None, data_endPos = None\<rparr>]] 1024 0)) ! 0)) = 2"
proof -
  let ?good = "\<lparr>data_start = 1, data_end = 2, data_autoplaySequence = False,
          data_autoplayDelay = None, data_startPos = None, data_endPos = None\<rparr>"
  let ?doc = "[demo_section 2
        [\<lparr>data_start = 0, data_end = 3, data_autoplaySequence = False,
          data_autoplayDelay = None, data_startPos = None, data_endPos = None\<rparr>, ?good]]"
  let ?evs = "[ImageLoad 0 0 400 300, ImageLoad 0 1 400 300, AnimationUpdate 1 (1 / 2)]"
  let ?p = "run ?evs (script ?doc 1024 0)"
  let ?a = "animations ?p ! 1"
  have a: "?a = \<lparr>target_loader = 0, blockSequence = \<lparr>frame = 1\<rparr>, from_frame = 0, to_frame = 1,
     duration = 1, ease = ''none'', snap = ''frame'', delay = 0,
     scrollTrigger = Some (''top top'', ''bottom bottom'')\<rparr>"
    unfolding good_block_beside_bad_block by simp
  have mem: "?a \<in> set (animations ?p)"
    unfolding good_block_beside_bad_block by simp
  have tl: "target_loader ?a = 0" and fr: "frame (blockSequence ?a) = 1"
    and an: "animates ?good ?a"
    unfolding a by (simp_all add: animates_def)
  from frame_within_array [of ?evs ?doc 1024 0] mem
  have "let l = loaders ?p ! target_loader ?a
        in data_framecount (?doc ! l_section l) = Some (frameCount l) \<and>
           (\<forall>b. animates b ?a \<and> block_ok (frameCount l) b \<longrightarrow>
                 int (length (images l)) = frameCount l)"
    unfolding Let_def by blast
  then have sec: "data_framecount (?doc ! l_section (loaders ?p ! 0)) = Some (frameCount (loaders ?p ! 0))"
    and fit: "block_ok (frameCount (loaders ?p ! 0)) ?good \<longrightarrow>
              int (length (images (loaders ?p ! 0))) = frameCount (loaders ?p ! 0)"
    using an unfolding Let_def tl by blast+
  from frame_within_array [of ?evs ?doc 1024 0] mem
  have "l_section (loaders ?p ! target_loader ?a) < length ?doc"
    unfolding Let_def by blast
  then have "l_section (loaders ?p ! 0) = 0"
    unfolding tl by simp
  with sec have fc: "frameCount (loaders ?p ! 0) = 2"
    by (simp add: demo_section_def)
  have "block_ok 2 ?good"
    by (simp add: block_ok_def)
  with fit fc have "length (images (loaders ?p ! 0)) = 2"
    by simp
  with fr show ?thesis by simp
qed

end
